theory Spec2Isabelle
  imports Main "HOL-Library.Sublist"
begin

section \<open>Text, substrings and slices\<close>

text \<open>
  File contents are Python \<open>str\<close> values.  They are modelled as \<open>string\<close>; a
  \<open>char\<close> stands for a code point below 256.
\<close>

text \<open>Python's \<open>sub in s\<close> on strings.\<close>

fun contains :: "string \<Rightarrow> string \<Rightarrow> bool" where
  "contains sub [] = (sub = [])"
| "contains sub (c # cs) = (prefix sub (c # cs) \<or> contains sub cs)"

text \<open>
  Python's \<open>s[i:j]\<close> for \<open>0 \<le> i\<close>, \<open>0 \<le> j\<close>.  Where a script writes
  \<open>max(0, n - 100)\<close> for an index, the model writes \<open>n - 100\<close> on natural numbers,
  which stops at zero.
\<close>

definition slice :: "string \<Rightarrow> nat \<Rightarrow> nat \<Rightarrow> string" where
  "slice s i j = take (j - i) (drop i s)"

text \<open>
  \<open>str.isspace\<close> on one character, which is also what \<open>\s\<close> matches in a \<open>str\<close>
  pattern: TAB, LF, VT, FF, CR, FS, GS, RS, US, SPACE, NEL and NBSP.
\<close>

definition is_space :: "char \<Rightarrow> bool" where
  "is_space c = (of_char c \<in> {9, 10, 11, 12, 13, 28, 29, 30, 31, 32, 133, 160 :: nat})"

definition is_digit :: "char \<Rightarrow> bool" where
  "is_digit c = (48 \<le> (of_char c :: nat) \<and> (of_char c :: nat) \<le> 57)"

section \<open>The regular expressions of module \<open>re\<close>\<close>

text \<open>
  The scripts use literals, character classes, greedy and lazy repetition of a single
  character class, an optional group, capture groups and negative lookahead.  No pattern
  looks behind, so a match at a position depends on the text from that position on only.
\<close>

datatype cset =
    Dot          \<comment> \<open>\<open>.\<close>: any character but a newline\<close>
  | DotAll       \<comment> \<open>\<open>.\<close> under \<open>re.DOTALL\<close>\<close>
  | Space        \<comment> \<open>\<open>\s\<close>\<close>
  | Digit        \<comment> \<open>\<open>\d\<close>\<close>
  | OneOf string \<comment> \<open>\<open>[...]\<close>\<close>
  | NoneOf string \<comment> \<open>\<open>[^...]\<close>\<close>

fun cmem :: "cset \<Rightarrow> char \<Rightarrow> bool" where
  "cmem Dot c = (c \<noteq> CHR 0x0A)"
| "cmem DotAll c = True"
| "cmem Space c = is_space c"
| "cmem Digit c = is_digit c"
| "cmem (OneOf cs) c = (c \<in> set cs)"
| "cmem (NoneOf cs) c = (c \<notin> set cs)"

datatype re =
    Lit string       \<comment> \<open>a literal text\<close>
  | One cset         \<comment> \<open>one character of a class\<close>
  | Star cset        \<comment> \<open>\<open>x*\<close>\<close>
  | LStar cset       \<comment> \<open>\<open>x*?\<close>\<close>
  | Plus cset        \<comment> \<open>\<open>x+\<close>\<close>
  | Seq re re        \<comment> \<open>concatenation\<close>
  | Grp nat re       \<comment> \<open>capture group number \<open>n\<close>\<close>
  | Opt re           \<comment> \<open>\<open>(...)?\<close>\<close>
  | NLook re         \<comment> \<open>\<open>(?!...)\<close>\<close>

text \<open>
  A capture is the pair of the text left at the start of the group and the text left at
  its end.
\<close>

type_synonym caps = "nat \<Rightarrow> (string \<times> string) option"

fun lit_match :: "string \<Rightarrow> string \<Rightarrow> string option" where
  "lit_match [] s = Some s"
| "lit_match (p # ps) [] = None"
| "lit_match (p # ps) (c # cs) = (if p = c then lit_match ps cs else None)"

text \<open>The texts left after \<open>x*\<close>, the longest repetition first.\<close>

fun star_greedy :: "cset \<Rightarrow> string \<Rightarrow> string list" where
  "star_greedy k [] = [[]]"
| "star_greedy k (c # cs) = (if cmem k c then star_greedy k cs else []) @ [c # cs]"

text \<open>The texts left after \<open>x*?\<close>, the shortest repetition first.\<close>

fun star_lazy :: "cset \<Rightarrow> string \<Rightarrow> string list" where
  "star_lazy k [] = [[]]"
| "star_lazy k (c # cs) = (c # cs) # (if cmem k c then star_lazy k cs else [])"

text \<open>
  The backtracking matcher: every way the pattern matches at the head of the text, in
  the order in which the engine tries them.  The head of the list is the match that
  \<open>re\<close> reports.
\<close>

fun ms :: "re \<Rightarrow> string \<Rightarrow> caps \<Rightarrow> (string \<times> caps) list" where
  "ms (Lit l) s c = (case lit_match l s of None \<Rightarrow> [] | Some r \<Rightarrow> [(r, c)])"
| "ms (One k) s c =
     (case s of [] \<Rightarrow> [] | x # xs \<Rightarrow> if cmem k x then [(xs, c)] else [])"
| "ms (Star k) s c = map (\<lambda>r. (r, c)) (star_greedy k s)"
| "ms (LStar k) s c = map (\<lambda>r. (r, c)) (star_lazy k s)"
| "ms (Plus k) s c =
     (case s of [] \<Rightarrow> []
      | x # xs \<Rightarrow> if cmem k x then map (\<lambda>r. (r, c)) (star_greedy k xs) else [])"
| "ms (Seq a b) s c = concat (map (\<lambda>(r, c'). ms b r c') (ms a s c))"
| "ms (Grp n a) s c = map (\<lambda>(r, c'). (r, c'(n \<mapsto> (s, r)))) (ms a s c)"
| "ms (Opt a) s c = ms a s c @ [(s, c)]"
| "ms (NLook a) s c = (case ms a s c of [] \<Rightarrow> [(s, c)] | _ # _ \<Rightarrow> [])"

text \<open>The leftmost match in a text: the text left at its start, at its end, and the captures.\<close>

fun search :: "re \<Rightarrow> string \<Rightarrow> (string \<times> string \<times> caps) option" where
  "search r [] = (case ms r [] Map.empty of [] \<Rightarrow> None | (e, c) # _ \<Rightarrow> Some ([], e, c))"
| "search r (x # xs) =
     (case ms r (x # xs) Map.empty of [] \<Rightarrow> search r xs
      | (e, c) # _ \<Rightarrow> Some (x # xs, e, c))"

text \<open>
  All non-overlapping matches from left to right, as \<open>finditer\<close> and \<open>sub\<close> walk
  them; \<open>k\<close> characters of the previous match are still to be passed over.  After an
  empty match the walk moves on by one character.
\<close>

fun scan :: "re \<Rightarrow> nat \<Rightarrow> string \<Rightarrow> (string \<times> string \<times> caps) list" where
  "scan r k [] =
     (if 0 < k then []
      else case ms r [] Map.empty of [] \<Rightarrow> [] | (e, c) # _ \<Rightarrow> [([], e, c)])"
| "scan r k (x # xs) =
     (if 0 < k then scan r (k - 1) xs
      else case ms r (x # xs) Map.empty of [] \<Rightarrow> scan r 0 xs
        | (e, c) # _ \<Rightarrow> (x # xs, e, c) # scan r (length xs - length e) xs)"

text \<open>A match object: positions in the searched text.\<close>

record rmatch =
  m_start :: nat
  m_end :: nat
  m_span :: "nat \<Rightarrow> (nat \<times> nat) option"

definition mk_match :: "string \<Rightarrow> string \<times> string \<times> caps \<Rightarrow> rmatch" where
  "mk_match content t =
     (case t of (a, e, c) \<Rightarrow>
        \<lparr>m_start = length content - length a,
         m_end = length content - length e,
         m_span = (\<lambda>n. map_option
            (\<lambda>(x, y). (length content - length x, length content - length y)) (c n))\<rparr>)"

definition re_search :: "re \<Rightarrow> string \<Rightarrow> rmatch option" where
  "re_search r content = map_option (mk_match content) (search r content)"

definition re_finditer :: "re \<Rightarrow> string \<Rightarrow> rmatch list" where
  "re_finditer r content = map (mk_match content) (scan r 0 content)"

text \<open>\<open>match.group(0)\<close>, and \<open>match.group(n)\<close>, which is \<open>None\<close> for a group that took no part.\<close>

definition group0 :: "string \<Rightarrow> rmatch \<Rightarrow> string" where
  "group0 content m = slice content (m_start m) (m_end m)"

definition group :: "string \<Rightarrow> rmatch \<Rightarrow> nat \<Rightarrow> string option" where
  "group content m n = map_option (\<lambda>(i, j). slice content i j) (m_span m n)"

text \<open>What an f-string prints for \<open>match.group(n)\<close>.\<close>

fun fstr :: "string option \<Rightarrow> string" where
  "fstr None = ''None''"
| "fstr (Some s) = s"

text \<open>\<open>match.group(n) if match.group(n) else d\<close>: \<open>None\<close> and the empty text are both false.\<close>

fun group_or :: "string option \<Rightarrow> string \<Rightarrow> string" where
  "group_or None d = d"
| "group_or (Some s) d = (if s = [] then d else s)"

text \<open>
  \<open>content[:i] + t + content[i:]\<close> for \<open>i = match.start(n)\<close> or \<open>match.end(n)\<close>, which
  is \<open>-1\<close> for a group that took no part.
\<close>

fun insert_at :: "string \<Rightarrow> nat option \<Rightarrow> string \<Rightarrow> string" where
  "insert_at content (Some i) t = take i content @ t @ drop i content"
| "insert_at content None t =
     take (length content - 1) content @ t @ drop (length content - 1) content"

text \<open>
  \<open>re.sub\<close> with a replacement text that holds no group reference.  It walks the text as
  \<open>scan\<close> does: a match gives the replacement and its characters are passed over, any
  other character is copied.  After an empty match the character at the position is
  copied.
\<close>

fun sub_walk :: "re \<Rightarrow> string \<Rightarrow> nat \<Rightarrow> string \<Rightarrow> string" where
  "sub_walk r repl k [] =
     (if 0 < k then []
      else case ms r [] Map.empty of [] \<Rightarrow> [] | _ # _ \<Rightarrow> repl)"
| "sub_walk r repl k (x # xs) =
     (if 0 < k then sub_walk r repl (k - 1) xs
      else case ms r (x # xs) Map.empty of [] \<Rightarrow> x # sub_walk r repl 0 xs
        | (e, c) # _ \<Rightarrow>
            if length e \<le> length xs then repl @ sub_walk r repl (length xs - length e) xs
            else repl @ x # sub_walk r repl 0 xs)"

definition re_sub :: "re \<Rightarrow> string \<Rightarrow> string \<Rightarrow> string" where
  "re_sub r repl content = sub_walk r repl 0 content"

text \<open>A pattern written as a sequence of parts.\<close>

fun cat :: "re list \<Rightarrow> re" where
  "cat [] = Lit []"
| "cat [r] = r"
| "cat (r # rs) = Seq r (cat rs)"

text \<open>\<open>str.strip()\<close> and \<open>str.lower()\<close>.\<close>

definition strip :: "string \<Rightarrow> string" where
  "strip s = rev (dropWhile is_space (rev (dropWhile is_space s)))"

definition lower_char :: "char \<Rightarrow> char" where
  "lower_char c =
     (let n = (of_char c :: nat)
      in if (65 \<le> n \<and> n \<le> 90) \<or> (192 \<le> n \<and> n \<le> 222 \<and> n \<noteq> 215)
         then char_of (n + 32) else c)"

definition lower :: "string \<Rightarrow> string" where
  "lower s = map lower_char s"

text \<open>The exceptions a run can meet.\<close>

datatype exn =
    OSError string
  | UnicodeDecodeError string
  | AttributeError string
  | TypeError string

fun exn_str :: "exn \<Rightarrow> string" where
  "exn_str (OSError m) = m"
| "exn_str (UnicodeDecodeError m) = m"
| "exn_str (AttributeError m) = m"
| "exn_str (TypeError m) = m"

type_synonym path = string

section \<open>\<open>add_dark_mode.py\<close>\<close>

text \<open>The lookahead \<open>(?!\s*dark:)\<close> that closes every pattern of \<open>CLASS_MAPPINGS\<close>.\<close>

definition not_dark :: re where
  \<open>not_dark = NLook (Seq (Star Space) (Lit ''dark:''))\<close>

text \<open>The dictionary, in the order in which it is written and walked.\<close>

definition CLASS_MAPPINGS :: "(re \<times> string) list" where
  \<open>CLASS_MAPPINGS =
    [(Seq (Lit ''bg-gray-50'') not_dark, ''bg-gray-50 dark:bg-gray-900''),
     (Seq (Lit ''bg-gray-100'') not_dark, ''bg-gray-100 dark:bg-gray-900''),
     (Seq (Lit ''bg-white'') not_dark, ''bg-white dark:bg-gray-800''),
     (Seq (Lit ''text-gray-600'') not_dark, ''text-gray-600 dark:text-gray-300''),
     (Seq (Lit ''text-gray-700'') not_dark, ''text-gray-700 dark:text-gray-200''),
     (Seq (Lit ''text-gray-800'') not_dark, ''text-gray-800 dark:text-gray-100''),
     (Seq (Lit ''text-gray-900'') not_dark, ''text-gray-900 dark:text-white''),
     (Seq (Lit ''text-green-800'') not_dark, ''text-green-800 dark:text-green-400''),
     (Seq (Lit ''text-blue-600'') not_dark, ''text-blue-600 dark:text-blue-400''),
     (Seq (Lit ''text-indigo-600'') not_dark, ''text-indigo-600 dark:text-indigo-400'')]\<close>

text \<open>\<open>Path(file_path).parts\<close> of a relative POSIX path.\<close>

fun split_sep :: "string \<Rightarrow> string \<Rightarrow> string list" where
  "split_sep acc [] = [rev acc]"
| "split_sep acc (c # cs) =
     (if c = CHR ''/'' then rev acc # split_sep [] cs else split_sep (c # acc) cs)"

definition path_parts :: "path \<Rightarrow> string list" where
  "path_parts p = filter (\<lambda>x. x \<noteq> [] \<and> x \<noteq> ''.'') (split_sep [] p)"

definition get_import_path :: "path \<Rightarrow> string" where
  "get_import_path file_path =
     (if ''auth'' \<in> set (path_parts file_path) then ''../components/DarkModeToggle''
      else ''../../components/DarkModeToggle'')"

definition import_pattern :: re where
  \<open>import_pattern =
     Grp 1 (cat [Lit ''import'', Plus Space, LStar Dot, Lit ''from'', Plus Space,
                 One (OneOf [CHR 0x27, CHR 0x22]), LStar Dot,
                 One (OneOf [CHR 0x27, CHR 0x22]), Lit '';''])\<close>

definition add_import :: "string \<Rightarrow> path \<Rightarrow> string \<times> bool" where
  \<open>add_import content file_path =
     (if contains ''DarkModeToggle'' content then (content, False)
      else
        let import_path = get_import_path file_path;
            import_statement = ''import DarkModeToggle from '' @ [CHR 0x27] @ import_path
                               @ [CHR 0x27] @ '';'';
            matches = re_finditer import_pattern content
        in if matches \<noteq> [] then
             let last_import = last matches;
                 insert_pos = m_end last_import
             in (take insert_pos content @ ''\<newline>'' @ import_statement @ drop insert_pos content,
                 True)
           else (content, False))\<close>

text \<open>The loop of \<open>add_dark_mode_classes\<close> over the mappings, with its two variables.\<close>

fun classes_loop :: "(re \<times> string) list \<Rightarrow> string \<Rightarrow> bool \<Rightarrow> string \<times> bool" where
  "classes_loop [] content modified = (content, modified)"
| "classes_loop ((pattern, replacement) # rest) content modified =
     (let new_content = re_sub pattern replacement content
      in if new_content \<noteq> content then classes_loop rest new_content True
         else classes_loop rest content modified)"

definition add_dark_mode_classes :: "string \<Rightarrow> string \<times> bool" where
  "add_dark_mode_classes content = classes_loop CLASS_MAPPINGS content False"

definition notification_pattern :: re where
  \<open>notification_pattern =
     cat [Grp 1 (Star Space),
          Opt (Grp 2 (cat [Lit ''/*'', LStar DotAll, Lit ''Notification Bell'', LStar DotAll,
                           Lit ''*/'', Star Space])),
          Grp 3 (Lit ''<NotificationBell'')]\<close>

definition logout_pattern :: re where
  \<open>logout_pattern =
     Grp 1 (cat [Lit ''<button'', LStar (NoneOf ''>''), Lit ''onClick={handleLogout}''])\<close>

text \<open>The container pattern ends with the escaped text of the logout match.\<close>

definition container_pattern :: "string \<Rightarrow> re" where
  \<open>container_pattern logout =
     cat [Grp 1 (cat [Lit ''<div'', LStar (NoneOf ''>''), Lit ''className="'',
                      Star (NoneOf ''"''), Lit ''flex'', Star (NoneOf ''"''), Lit ''"'',
                      Star (NoneOf ''>''), Lit ''>'']),
          Grp 2 (LStar (NoneOf ''<'')),
          Lit logout]\<close>

text \<open>
  \<open>add_dark_mode_toggle\<close>.  \<open>indent.strip()\<close> raises for a group that took no part;
  every other use of a group has a value in Python for \<open>None\<close> too.
\<close>

definition bell_insert :: "string \<Rightarrow> rmatch \<Rightarrow> string" where
  \<open>bell_insert content match =
     (let indent = fstr (group content match 1);
          insert_text = ''\<newline>'' @ indent @ ''{/* Dark Mode Toggle */}\<newline>'' @ indent
                        @ ''<DarkModeToggle />\<newline>'' @ indent
      in insert_at content (map_option fst (m_span match 3)) insert_text)\<close>

definition container_insert :: "string \<Rightarrow> rmatch \<Rightarrow> exn + string" where
  \<open>container_insert content container_match =
     (case group content container_match 2 of
        None \<Rightarrow> Inl (AttributeError ''strip'')
      | Some indent0 \<Rightarrow>
          let insert_pos = map_option snd (m_span container_match 2);
              indent = (if strip indent0 = [] then ''              '' else indent0);
              insert_text = ''\<newline>'' @ indent @ ''<DarkModeToggle />\<newline>'' @ indent
          in Inr (insert_at content insert_pos insert_text))\<close>

definition add_dark_mode_toggle :: "string \<Rightarrow> path \<Rightarrow> exn + string \<times> bool" where
  \<open>add_dark_mode_toggle content file_path =
     (if contains ''<DarkModeToggle />'' content then Inr (content, False)
      else case re_search notification_pattern content of
        Some match \<Rightarrow> Inr (bell_insert content match, True)
      | None \<Rightarrow>
          (case re_search logout_pattern content of
             Some match \<Rightarrow>
               (case re_search (container_pattern (group0 content match)) content of
                  Some container_match \<Rightarrow>
                    (case container_insert content container_match of
                       Inl e \<Rightarrow> Inl e
                     | Inr c \<Rightarrow> Inr (c, True))
                | None \<Rightarrow> Inr (content, False))
           | None \<Rightarrow> Inr (content, False)))\<close>

section \<open>\<open>add_toggle_component.py\<close>\<close>

definition toggle_html :: string where
  \<open>toggle_html =
     ''\<newline>      {/* Dark Mode Toggle */}\<newline>      <div className="absolute top-4 right-4">\<newline>        <DarkModeToggle />\<newline>      </div>\<newline>''\<close>

definition auth_pattern :: re where
  \<open>auth_pattern =
     Grp 1 (cat [Lit ''return'', Star Space, Lit ''('', Star Space,
                 Lit ''<div className="min-h-screen'', Star (NoneOf ''"''), Lit ''">''])\<close>

definition add_toggle_to_auth_page :: "string \<Rightarrow> string \<times> bool" where
  "add_toggle_to_auth_page content =
     (case re_search auth_pattern content of
        Some match \<Rightarrow>
          let insert_pos = m_end match
          in (take insert_pos content @ toggle_html @ drop insert_pos content, True)
      | None \<Rightarrow> (content, False))"

definition std_pattern1 :: re where
  \<open>std_pattern1 = cat [Grp 1 (Plus Space), Grp 2 (Lit ''/* Notification Bell */'')]\<close>

definition std_pattern2 :: re where
  \<open>std_pattern2 =
     cat [Grp 1 (cat [Lit ''<div'', Star (NoneOf ''>''), Lit ''className="'',
                      Star (NoneOf ''"''), Lit ''flex'', Star (NoneOf ''"''), Lit ''space-x-'',
                      Star (NoneOf ''"''), Lit ''"'', Star (NoneOf ''>''), Lit ''>'']),
          Grp 2 (Star Space),
          Grp 3 (Lit ''<NotificationBell'')]\<close>

definition std_pattern3 :: re where
  \<open>std_pattern3 =
     cat [Grp 1 (cat [Lit ''<div'', Star (NoneOf ''>''), Lit ''className="'',
                      Star (NoneOf ''"''), Lit ''flex'', Star (NoneOf ''"''), Lit ''items-center'',
                      Star (NoneOf ''"''), Lit ''"'', Star (NoneOf ''>''), Lit ''>'']),
          Grp 2 (LStar (NoneOf ''<'')),
          Grp 3 (cat [Lit ''<button'', LStar (NoneOf ''>''), Lit ''onClick={handleLogout}''])]\<close>

definition std_pattern4 :: re where
  \<open>std_pattern4 =
     Grp 1 (cat [Lit ''/* Actions */'', Star Space, Lit ''<div'', Star (NoneOf ''>''), Lit ''>''])\<close>

text \<open>
  The four blocks of \<open>add_toggle_to_standard_page\<close>, each the body of one \<open>if match:\<close>.
  \<open>whitespace.strip()\<close> and \<open>'\n' in whitespace\<close> raise for a group that took no part.
\<close>

definition std_apply1 :: "string \<Rightarrow> rmatch \<Rightarrow> exn + string \<times> bool" where
  \<open>std_apply1 content match =
     (let indent = fstr (group content match 1);
          insert_text = indent @ ''{/* Dark Mode Toggle */}\<newline>'' @ indent
                        @ ''<DarkModeToggle />\<newline>\<newline>'' @ indent
      in Inr (take (m_start match) content @ insert_text @ drop (m_start match) content, True))\<close>

definition std_apply2 :: "string \<Rightarrow> rmatch \<Rightarrow> exn + string \<times> bool" where
  \<open>std_apply2 content match =
     (case group content match 2 of
        None \<Rightarrow> Inl (AttributeError ''strip'')
      | Some whitespace \<Rightarrow>
          let div_tag = fstr (group content match 1);
              bell_tag = fstr (group content match 3);
              indent = (if strip whitespace = [] then whitespace
                        else ''\<newline>              '');
              insert_text = div_tag @ indent @ ''<DarkModeToggle />'' @ indent @ bell_tag
          in Inr (take (m_start match) content @ insert_text @ drop (m_end match) content,
                  True))\<close>

definition std_apply3 :: "string \<Rightarrow> rmatch \<Rightarrow> exn + string \<times> bool" where
  \<open>std_apply3 content match =
     (case group content match 2 of
        None \<Rightarrow> Inl (TypeError ''in'')
      | Some whitespace \<Rightarrow>
          let div_tag = fstr (group content match 1);
              button_tag = fstr (group content match 3);
              indent = (if CHR 0x0A \<in> set whitespace then ''\<newline>              ''
                        else '' '');
              insert_text = div_tag @ whitespace @ ''<DarkModeToggle />'' @ indent
                            @ button_tag
          in Inr (take (m_start match) content @ insert_text @ drop (m_end match) content,
                  True))\<close>

definition std_apply4 :: "string \<Rightarrow> rmatch \<Rightarrow> exn + string \<times> bool" where
  \<open>std_apply4 content match =
     (let insert_pos = m_end match;
          insert_text = ''\<newline>              <DarkModeToggle />\<newline>              ''
      in Inr (take insert_pos content @ insert_text @ drop insert_pos content, True))\<close>

definition add_toggle_to_standard_page :: "string \<Rightarrow> exn + string \<times> bool" where
  \<open>add_toggle_to_standard_page content =
     (case re_search std_pattern1 content of
        Some match \<Rightarrow> std_apply1 content match
      | None \<Rightarrow>
     (case re_search std_pattern2 content of
        Some match \<Rightarrow> std_apply2 content match
      | None \<Rightarrow>
     (case re_search std_pattern3 content of
        Some match \<Rightarrow> std_apply3 content match
      | None \<Rightarrow>
     (case re_search std_pattern4 content of
        Some match \<Rightarrow> std_apply4 content match
      | None \<Rightarrow> Inr (content, False)))))\<close>

section \<open>\<open>add_toggle_final.py\<close>\<close>

definition fin_pattern1 :: re where
  \<open>fin_pattern1 =
     cat [Grp 1 (cat [Lit ''<div className="flex items-center gap-'', Plus Digit, Lit ''">'']),
          Grp 2 (Star Space)]\<close>

definition fin_pattern2 :: re where
  \<open>fin_pattern2 =
     cat [Grp 1 (cat [Lit ''<div'', Star (NoneOf ''>''), Lit ''className="'',
                      Star (NoneOf ''"''), Lit ''flex'', Star (NoneOf ''"''), Lit ''space-x-'',
                      Plus Digit, Star (NoneOf ''"''), Lit ''"'', Star (NoneOf ''>''), Lit ''>'']),
          Grp 2 (Star Space)]\<close>

definition fin_pattern3 :: re where
  \<open>fin_pattern3 =
     cat [Grp 1 (cat [Lit ''<div'', Star (NoneOf ''>''), Lit ''className="'',
                      Star (NoneOf ''"''), Lit ''flex'', Star (NoneOf ''>''), Lit ''>'']),
          Grp 2 (Star Space),
          Grp 3 (cat [Lit ''<Link to="/'', Plus (NoneOf ''/''), Lit ''/dashboard"''])]\<close>

text \<open>The text that replaces a match of the first two patterns.\<close>

definition fin_insert :: "string \<Rightarrow> rmatch \<Rightarrow> string" where
  \<open>fin_insert content match =
     (let div_tag = fstr (group content match 1);
          whitespace = group_or (group content match 2) ''\<newline>              '';
          insert_text = div_tag @ whitespace @ ''<DarkModeToggle />'' @ whitespace
      in take (m_start match) content @ insert_text @ drop (m_end match) content)\<close>

text \<open>The two \<open>for\<close> loops over the reversed matches; \<open>None\<close> when the loop runs out.\<close>

fun fin_loop1 :: "string \<Rightarrow> rmatch list \<Rightarrow> string option" where
  \<open>fin_loop1 content [] = None\<close>
| \<open>fin_loop1 content (match # rest) =
     (let nearby_content = slice content (m_end match) (m_end match + 200)
      in if \<not> contains ''<DarkModeToggle'' nearby_content
         then Some (fin_insert content match)
         else fin_loop1 content rest)\<close>

fun fin_loop2 :: "string \<Rightarrow> rmatch list \<Rightarrow> string option" where
  \<open>fin_loop2 content [] = None\<close>
| \<open>fin_loop2 content (match # rest) =
     (let nearby_content = slice content (m_end match) (m_end match + 200)
      in if \<not> contains ''<DarkModeToggle'' nearby_content
            \<and> contains ''logout'' (lower nearby_content)
         then Some (fin_insert content match)
         else fin_loop2 content rest)\<close>

text \<open>The third pattern; \<open>None\<close> when it falls through to the last \<open>return\<close>.\<close>

definition fin_try3 :: "string \<Rightarrow> string option" where
  \<open>fin_try3 content =
     (case re_search fin_pattern3 content of
        Some match \<Rightarrow>
          let nearby = slice content (m_start match - 100) (m_end match + 100)
          in if \<not> contains ''<DarkModeToggle'' nearby then
               let div_tag = fstr (group content match 1);
                   whitespace = group_or (group content match 2) ''\<newline>              '';
                   link_tag = fstr (group content match 3);
                   insert_text = div_tag @ whitespace @ ''<DarkModeToggle />'' @ whitespace
                                 @ link_tag
               in Some (take (m_start match) content @ insert_text
                        @ drop (m_end match) content)
             else None
      | None \<Rightarrow> None)\<close>

definition add_toggle_generic :: "string \<Rightarrow> string \<times> bool" where
  "add_toggle_generic content =
     (case fin_loop1 content (rev (re_finditer fin_pattern1 content)) of
        Some c \<Rightarrow> (c, True)
      | None \<Rightarrow>
     (case fin_loop2 content (rev (re_finditer fin_pattern2 content)) of
        Some c \<Rightarrow> (c, True)
      | None \<Rightarrow>
     (case fin_try3 content of
        Some c \<Rightarrow> (c, True)
      | None \<Rightarrow> (content, False))))"

section \<open>\<open>manual_toggle_add.py\<close>\<close>

definition link_pattern :: re where
  \<open>link_pattern =
     Grp 1 (cat [Lit ''<Link to="/'', Plus (NoneOf ''/''), Lit ''/dashboard"'',
                 Star (NoneOf ''>''), Lit ''>'', Star (NoneOf ''<''), Lit ''</Link>''])\<close>

text \<open>The part of \<open>add_toggle\<close> between reading and writing: the new content, if any.\<close>

definition manual_patch :: "string \<Rightarrow> string option" where
  \<open>manual_patch content =
     (case re_search link_pattern content of
        Some match \<Rightarrow>
          let link_tag = fstr (group content match 1);
              before_link = slice content (m_start match - 100) (m_start match)
          in if contains ''<div className="flex items-center gap-'' before_link then
               let insert_text = ''<DarkModeToggle />\<newline>              '' @ link_tag
               in Some (take (m_start match) content @ insert_text
                        @ drop (m_end match) content)
             else
               let insert_text = ''<div className="flex items-center gap-4">\<newline>              <DarkModeToggle />\<newline>              '' @ link_tag @ ''\<newline>            </div>''
               in Some (take (m_start match) content @ insert_text
                        @ drop (m_end match) content)
      | None \<Rightarrow> None)\<close>

section \<open>Files and the console\<close>

text \<open>
  A file on disk: what reading it as UTF-8 text gives (its content, or the exception that
  \<open>open\<close> or \<open>read\<close> raises), and the exception that opening it for writing raises, if
  any.
\<close>

datatype node = Node (n_read: "exn + string") (n_write: "exn option")

text \<open>
  The world of a run: the files, the lines printed so far, the paths opened for reading
  and the paths written so far.
\<close>

record world =
  files :: "path \<Rightarrow> node option"
  out :: "string list"
  reads :: "path list"
  writes :: "path list"

definition print :: "string \<Rightarrow> world \<Rightarrow> world" where
  "print line w = w\<lparr>out := out w @ [line]\<rparr>"

definition path_exists :: "world \<Rightarrow> path \<Rightarrow> bool" where
  "path_exists w p = (files w p \<noteq> None)"

definition read_text :: "world \<Rightarrow> path \<Rightarrow> (exn + string) \<times> world" where
  "read_text w p =
     (case files w p of
        None \<Rightarrow> Inl (OSError ''No such file or directory'')
      | Some n \<Rightarrow> n_read n,
      w\<lparr>reads := reads w @ [p]\<rparr>)"

definition store :: "world \<Rightarrow> path \<Rightarrow> string \<Rightarrow> world" where
  "store w p s = w\<lparr>files := (files w)(p \<mapsto> Node (Inr s) None), writes := writes w @ [p]\<rparr>"

definition write_text :: "world \<Rightarrow> path \<Rightarrow> string \<Rightarrow> exn + world" where
  "write_text w p s =
     (case files w p of
        None \<Rightarrow> Inr (store w p s)
      | Some n \<Rightarrow> (case n_write n of Some e \<Rightarrow> Inl e | None \<Rightarrow> Inr (store w p s)))"

text \<open>\<open>sep.join(xs)\<close>, \<open>str(n)\<close> for a count, \<open>str(b)\<close> for a truth value.\<close>

fun join :: "string \<Rightarrow> string list \<Rightarrow> string" where
  "join sep [] = []"
| "join sep [x] = x"
| "join sep (x # y # ys) = x @ sep @ join sep (y # ys)"

fun str_nat :: "nat \<Rightarrow> string" where
  "str_nat n =
     (if n < 10 then [char_of (48 + n)]
      else str_nat (n div 10) @ [char_of (48 + n mod 10)])"

fun str_bool :: "bool \<Rightarrow> string" where
  "str_bool True = ''True''"
| "str_bool False = ''False''"

definition rule60 :: string where
  "rule60 = replicate 60 CHR ''=''"

section \<open>The runs of \<open>add_dark_mode.py\<close>\<close>

text \<open>
  The three steps of \<open>process_file\<close> between reading and writing: the new content and
  the list \<open>changes\<close>.
\<close>

definition dm_steps :: "path \<Rightarrow> string \<Rightarrow> exn + string \<times> string list" where
  "dm_steps file_path content =
     (case add_import content file_path of (content1, imported) \<Rightarrow>
      let changes1 = (if imported then [''Added DarkModeToggle import''] else [])
      in case add_dark_mode_classes content1 of (content2, classes_added) \<Rightarrow>
      let changes2 = changes1 @ (if classes_added then [''Added dark mode classes''] else [])
      in case add_dark_mode_toggle content2 file_path of
           Inl e \<Rightarrow> Inl e
         | Inr (content3, toggle_added) \<Rightarrow>
             Inr (content3,
                  changes2 @ (if toggle_added then [''Added DarkModeToggle component''] else [])))"

definition dm_process_file :: "path \<Rightarrow> world \<Rightarrow> bool \<times> world" where
  \<open>dm_process_file file_path w0 =
     (case read_text (print (''\<newline>Processing: '' @ file_path) w0) file_path of
           (Inl e, w1) \<Rightarrow> (False, print (''  [ERROR] '' @ exn_str e) w1)
         | (Inr original_content, w1) \<Rightarrow>
             (case dm_steps file_path original_content of
                Inl e \<Rightarrow> (False, print (''  [ERROR] '' @ exn_str e) w1)
              | Inr (content, changes) \<Rightarrow>
                  if content \<noteq> original_content then
                    (case write_text w1 file_path content of
                       Inl e \<Rightarrow> (False, print (''  [ERROR] '' @ exn_str e) w1)
                     | Inr w2 \<Rightarrow> (True, print (''  [OK] '' @ join '', '' changes) w2))
                  else (False, print ''  [SKIP] No changes needed'' w1)))\<close>

definition dm_pages :: "(string \<times> string list) list" where
  "dm_pages =
    [(''Retailer'',
      [''retailer/Dashboard.tsx'', ''retailer/InventoryManagement.tsx'',
       ''retailer/B2BMarketplace.tsx'', ''retailer/B2BCheckout.tsx'',
       ''retailer/B2BOrderHistory.tsx'', ''retailer/B2BOrderDetails.tsx'',
       ''retailer/OrderManagement.tsx'', ''retailer/SalesAnalytics.tsx'',
       ''retailer/CustomerHistory.tsx'', ''retailer/ProductReviews.tsx'']),
     (''Wholesaler'',
      [''wholesaler/Dashboard.tsx'', ''wholesaler/BulkOrders.tsx'',
       ''wholesaler/B2BOrderDetails.tsx'', ''wholesaler/InventoryManagement.tsx'',
       ''wholesaler/RetailerNetwork.tsx'', ''wholesaler/Analytics.tsx'']),
     (''Customer'',
      [''customer/ProductBrowse.tsx'', ''customer/Wishlist.tsx'',
       ''customer/OrderHistory.tsx'', ''customer/NearbyStores.tsx'',
       ''customer/Checkout.tsx'', ''customer/MyReviews.tsx'',
       ''customer/TransactionHistory.tsx'']),
     (''Auth'',
      [''auth/Login.tsx'', ''auth/Register.tsx'', ''auth/ForgotPassword.tsx'',
       ''auth/ResetPassword.tsx''])]"

definition dm_skip_files :: "path set" where
  "dm_skip_files = {''client/src/pages/customer/Dashboard.tsx''}"

text \<open>\<open>base_dir / file_name\<close> and \<open>str(file_path).replace('\\', '/')\<close>.\<close>

definition dm_base_dir :: path where
  "dm_base_dir = ''client/src/pages''"

definition path_join :: "path \<Rightarrow> path \<Rightarrow> path" where
  "path_join d f = d @ ''/'' @ f"

definition unbackslash :: "string \<Rightarrow> string" where
  "unbackslash s = map (\<lambda>c. if c = CHR 0x5C then CHR ''/'' else c) s"

text \<open>
  The inner loop over the files of a category; the state is the world with the counters
  \<open>total_files\<close> and \<open>modified_files\<close>.
\<close>

fun dm_file_loop :: "string list \<Rightarrow> world \<times> nat \<times> nat \<Rightarrow> world \<times> nat \<times> nat" where
  \<open>dm_file_loop [] st = st\<close>
| \<open>dm_file_loop (file_name # rest) (w, total_files, modified_files) =
     (let file_path = path_join dm_base_dir file_name;
          full_path = unbackslash file_path
      in if full_path \<in> dm_skip_files then
           dm_file_loop rest
             (print (''\<newline>[SKIP] Skipping: '' @ file_path @ '' (already done)'') w,
              total_files, modified_files)
         else if path_exists w file_path then
           (case dm_process_file file_path w of
              (True, w') \<Rightarrow> dm_file_loop rest (w', total_files + 1, modified_files + 1)
            | (False, w') \<Rightarrow> dm_file_loop rest (w', total_files + 1, modified_files))
         else
           dm_file_loop rest
             (print (''\<newline>[WARN] File not found: '' @ file_path) w,
              total_files, modified_files))\<close>

fun dm_page_loop ::
  "(string \<times> string list) list \<Rightarrow> world \<times> nat \<times> nat \<Rightarrow> world \<times> nat \<times> nat" where
  \<open>dm_page_loop [] st = st\<close>
| \<open>dm_page_loop ((category, file_list) # rest) (w, total_files, modified_files) =
     dm_page_loop rest
       (dm_file_loop file_list
          (print rule60 (print (category @ '' Pages'') (print (''\<newline>'' @ rule60) w)),
           total_files, modified_files))\<close>

definition dm_run :: "(string \<times> string list) list \<Rightarrow> world \<Rightarrow> world" where
  \<open>dm_run pages w =
     (case dm_page_loop pages
             (print rule60 (print ''Adding Dark Mode Support to All Pages'' (print rule60 w)),
              0, 0) of
        (w', total_files, modified_files) \<Rightarrow>
          print rule60
            (print (''Summary: Modified '' @ str_nat modified_files @ ''/''
                    @ str_nat total_files @ '' files'')
               (print (''\<newline>'' @ rule60) w')))\<close>

definition dm_main :: "world \<Rightarrow> world" where
  "dm_main w = dm_run dm_pages w"

section \<open>The runs of \<open>add_toggle_component.py\<close>\<close>

text \<open>The choice of the page kind and the patch, between reading and writing.\<close>

definition tc_patch :: "path \<Rightarrow> string \<Rightarrow> exn + string \<times> bool" where
  "tc_patch file_path content =
     (if contains ''auth'' file_path then Inr (add_toggle_to_auth_page content)
      else add_toggle_to_standard_page content)"

definition tc_process_file :: "path \<Rightarrow> world \<Rightarrow> bool \<times> world" where
  \<open>tc_process_file file_path w0 =
     (case read_text w0 file_path of
        (Inl e, w) \<Rightarrow> (False, print (''[ERROR] '' @ file_path @ '': '' @ exn_str e) w)
      | (Inr content, w) \<Rightarrow>
          if contains ''<DarkModeToggle'' content then
            (False, print (''[SKIP] '' @ file_path @ '' - Already has component'') w)
          else if \<not> contains ''import DarkModeToggle'' content then
            (False, print (''[SKIP] '' @ file_path @ '' - No import found'') w)
          else
            (case tc_patch file_path content of
               Inl e \<Rightarrow> (False, print (''[ERROR] '' @ file_path @ '': '' @ exn_str e) w)
             | Inr (content', modified) \<Rightarrow>
                 if modified then
                   (case write_text w file_path content' of
                      Inl e \<Rightarrow> (False, print (''[ERROR] '' @ file_path @ '': '' @ exn_str e) w)
                    | Inr w' \<Rightarrow> (True, print (''[OK] '' @ file_path) w'))
                 else
                   (False,
                    print (''[MANUAL] '' @ file_path @ '' - Needs manual intervention'') w)))\<close>

definition tc_files :: "path list" where
  "tc_files =
    [''client/src/pages/auth/Register.tsx'',
     ''client/src/pages/auth/ForgotPassword.tsx'',
     ''client/src/pages/auth/ResetPassword.tsx'',
     ''client/src/pages/customer/Checkout.tsx'',
     ''client/src/pages/customer/MyReviews.tsx'',
     ''client/src/pages/customer/NearbyStores.tsx'',
     ''client/src/pages/customer/OrderHistory.tsx'',
     ''client/src/pages/customer/ProductBrowse.tsx'',
     ''client/src/pages/customer/TransactionHistory.tsx'',
     ''client/src/pages/customer/Wishlist.tsx'',
     ''client/src/pages/retailer/B2BCheckout.tsx'',
     ''client/src/pages/retailer/B2BMarketplace.tsx'',
     ''client/src/pages/retailer/B2BOrderDetails.tsx'',
     ''client/src/pages/retailer/B2BOrderHistory.tsx'',
     ''client/src/pages/retailer/CustomerHistory.tsx'',
     ''client/src/pages/retailer/OrderManagement.tsx'',
     ''client/src/pages/retailer/ProductReviews.tsx'',
     ''client/src/pages/retailer/SalesAnalytics.tsx'',
     ''client/src/pages/wholesaler/Analytics.tsx'',
     ''client/src/pages/wholesaler/B2BOrderDetails.tsx'',
     ''client/src/pages/wholesaler/InventoryManagement.tsx'',
     ''client/src/pages/wholesaler/RetailerNetwork.tsx'']"

text \<open>
  The loop of \<open>main\<close>; the state is the world with \<open>modified_count\<close> and
  \<open>manual_count\<close>.  \<open>result\<close> is the truth value that \<open>process_file\<close> returned.
\<close>

fun tc_loop :: "path list \<Rightarrow> world \<times> nat \<times> nat \<Rightarrow> world \<times> nat \<times> nat" where
  \<open>tc_loop [] st = st\<close>
| \<open>tc_loop (file_path # rest) (w, modified_count, manual_count) =
     (if path_exists w file_path then
        (case tc_process_file file_path w of
           (result, w') \<Rightarrow>
             if result then tc_loop rest (w', modified_count + 1, manual_count)
             else if contains ''[MANUAL]'' (str_bool result)
               then tc_loop rest (w', modified_count, manual_count + 1)
             else tc_loop rest (w', modified_count, manual_count))
      else
        tc_loop rest (print (''[WARN] File not found: '' @ file_path) w,
                      modified_count, manual_count))\<close>

definition tc_run :: "path list \<Rightarrow> world \<Rightarrow> world" where
  \<open>tc_run files_to_process w =
     (case tc_loop files_to_process
             (print rule60
                (print ''Adding DarkModeToggle Component to Pages'' (print rule60 w)), 0, 0) of
        (w', modified_count, manual_count) \<Rightarrow>
          let w1 = print (''Summary: Modified '' @ str_nat modified_count @ '' files'')
                     (print (''\<newline>'' @ rule60) w');
              w2 = (if 0 < manual_count
                    then print (''         '' @ str_nat manual_count
                                @ '' files need manual intervention'') w1
                    else w1)
          in print rule60 w2)\<close>

definition tc_main :: "world \<Rightarrow> world" where
  "tc_main w = tc_run tc_files w"

section \<open>The runs of \<open>add_toggle_final.py\<close>\<close>

definition fin_process_file :: "path \<Rightarrow> world \<Rightarrow> bool \<times> world" where
  \<open>fin_process_file file_path w0 =
     (case read_text w0 file_path of
        (Inl e, w) \<Rightarrow> (False, print (''[ERROR] '' @ file_path @ '': '' @ exn_str e) w)
      | (Inr content, w) \<Rightarrow>
          if contains ''<DarkModeToggle'' content then (False, w)
          else if \<not> contains ''import DarkModeToggle'' content then (False, w)
          else
            (case add_toggle_generic content of
               (content', modified) \<Rightarrow>
                 if modified then
                   (case write_text w file_path content' of
                      Inl e \<Rightarrow> (False, print (''[ERROR] '' @ file_path @ '': '' @ exn_str e) w)
                    | Inr w' \<Rightarrow> (True, print (''[OK] '' @ file_path) w'))
                 else (False, print (''[MANUAL] '' @ file_path) w)))\<close>

definition fin_files :: "path list" where
  "fin_files =
    [''client/src/pages/customer/Checkout.tsx'',
     ''client/src/pages/customer/MyReviews.tsx'',
     ''client/src/pages/customer/NearbyStores.tsx'',
     ''client/src/pages/customer/OrderHistory.tsx'',
     ''client/src/pages/customer/TransactionHistory.tsx'',
     ''client/src/pages/customer/Wishlist.tsx'',
     ''client/src/pages/retailer/B2BCheckout.tsx'',
     ''client/src/pages/retailer/B2BMarketplace.tsx'',
     ''client/src/pages/retailer/B2BOrderDetails.tsx'',
     ''client/src/pages/retailer/B2BOrderHistory.tsx'',
     ''client/src/pages/retailer/CustomerHistory.tsx'',
     ''client/src/pages/retailer/OrderManagement.tsx'',
     ''client/src/pages/retailer/ProductReviews.tsx'',
     ''client/src/pages/retailer/SalesAnalytics.tsx'',
     ''client/src/pages/wholesaler/Analytics.tsx'',
     ''client/src/pages/wholesaler/B2BOrderDetails.tsx'',
     ''client/src/pages/wholesaler/InventoryManagement.tsx'',
     ''client/src/pages/wholesaler/RetailerNetwork.tsx'']"

text \<open>The loop of \<open>main\<close>: \<open>process_file\<close> is called for an existing path only.\<close>

fun fin_loop :: "path list \<Rightarrow> world \<times> nat \<Rightarrow> world \<times> nat" where
  \<open>fin_loop [] st = st\<close>
| \<open>fin_loop (f # rest) (w, modified) =
     (if path_exists w f then
        (case fin_process_file f w of
           (True, w') \<Rightarrow> fin_loop rest (w', modified + 1)
         | (False, w') \<Rightarrow> fin_loop rest (w', modified))
      else fin_loop rest (w, modified))\<close>

definition fin_run :: "path list \<Rightarrow> world \<Rightarrow> world" where
  \<open>fin_run fs w =
     (case fin_loop fs
             (print rule60 (print ''Final Pass: Adding DarkModeToggle'' (print rule60 w)), 0) of
        (w', modified) \<Rightarrow> print (''\<newline>'' @ str_nat modified @ '' files modified'') w')\<close>

definition fin_main :: "world \<Rightarrow> world" where
  "fin_main w = fin_run fin_files w"

section \<open>The runs of \<open>manual_toggle_add.py\<close>\<close>

definition files_to_fix :: "path list" where
  "files_to_fix =
    [''client/src/pages/customer/MyReviews.tsx'',
     ''client/src/pages/retailer/B2BCheckout.tsx'',
     ''client/src/pages/retailer/B2BOrderDetails.tsx'',
     ''client/src/pages/retailer/B2BOrderHistory.tsx'',
     ''client/src/pages/retailer/CustomerHistory.tsx'',
     ''client/src/pages/retailer/OrderManagement.tsx'',
     ''client/src/pages/retailer/SalesAnalytics.tsx'',
     ''client/src/pages/wholesaler/Analytics.tsx'',
     ''client/src/pages/wholesaler/B2BOrderDetails.tsx'',
     ''client/src/pages/wholesaler/InventoryManagement.tsx'',
     ''client/src/pages/wholesaler/RetailerNetwork.tsx'']"

text \<open>
  \<open>add_toggle\<close> has no \<open>try\<close>: an exception of \<open>open\<close>, \<open>read\<close> or \<open>write\<close> leaves the
  function.  The result is the exception or the returned truth value, with the world.
\<close>

definition add_toggle :: "path \<Rightarrow> world \<Rightarrow> (exn + bool) \<times> world" where
  \<open>add_toggle file_path w0 =
     (case read_text w0 file_path of
        (Inl e, w) \<Rightarrow> (Inl e, w)
      | (Inr content, w) \<Rightarrow>
          if contains ''<DarkModeToggle'' content then
            (Inr False, print (''[SKIP] '' @ file_path @ '' - Already has toggle'') w)
          else
            (case manual_patch content of
               Some content' \<Rightarrow>
                 (case write_text w file_path content' of
                    Inl e \<Rightarrow> (Inl e, w)
                  | Inr w' \<Rightarrow> (Inr True, print (''[OK] '' @ file_path) w'))
             | None \<Rightarrow>
                 (Inr False, print (''[FAILED] '' @ file_path @ '' - Pattern not found'') w)))\<close>

text \<open>The loop of \<open>main\<close>: an exception of \<open>add_toggle\<close> ends it.\<close>

fun man_loop :: "path list \<Rightarrow> world \<times> nat \<Rightarrow> (exn + nat) \<times> world" where
  \<open>man_loop [] (w, modified) = (Inr modified, w)\<close>
| \<open>man_loop (f # rest) (w, modified) =
     (if path_exists w f then
        (case add_toggle f w of
           (Inl e, w') \<Rightarrow> (Inl e, w')
         | (Inr True, w') \<Rightarrow> man_loop rest (w', modified + 1)
         | (Inr False, w') \<Rightarrow> man_loop rest (w', modified))
      else man_loop rest (w, modified))\<close>

text \<open>A run: the exception that ended it, if any, and the world it leaves.\<close>

definition man_run :: "path list \<Rightarrow> world \<Rightarrow> exn option \<times> world" where
  \<open>man_run fs w =
     (case man_loop fs (w, 0) of
        (Inl e, w') \<Rightarrow> (Some e, w')
      | (Inr modified, w') \<Rightarrow>
          (None, print (''\<newline>'' @ str_nat modified @ '' files modified'') w'))\<close>

definition man_main :: "world \<Rightarrow> exn option \<times> world" where
  "man_main w = man_run files_to_fix w"

section \<open>What a run leaves in a file\<close>

text \<open>
  The text that the per-file step of each script leaves in a file that it can read and
  write, as a function of the text read: the new content where the step writes, the old
  one where it does not.
\<close>

definition dm_transform :: "path \<Rightarrow> string \<Rightarrow> string" where
  "dm_transform file_path content =
     (case dm_steps file_path content of Inl e \<Rightarrow> content | Inr (content', changes) \<Rightarrow> content')"

definition tc_transform :: "path \<Rightarrow> string \<Rightarrow> string" where
  \<open>tc_transform file_path content =
     (if contains ''<DarkModeToggle'' content then content
      else if \<not> contains ''import DarkModeToggle'' content then content
      else case tc_patch file_path content of
             Inl e \<Rightarrow> content
           | Inr (content', modified) \<Rightarrow> if modified then content' else content)\<close>

definition fin_transform :: "string \<Rightarrow> string" where
  \<open>fin_transform content =
     (if contains ''<DarkModeToggle'' content then content
      else if \<not> contains ''import DarkModeToggle'' content then content
      else case add_toggle_generic content of
             (content', modified) \<Rightarrow> if modified then content' else content)\<close>

definition man_transform :: "string \<Rightarrow> string" where
  \<open>man_transform content =
     (if contains ''<DarkModeToggle'' content then content
      else case manual_patch content of Some content' \<Rightarrow> content' | None \<Rightarrow> content)\<close>

section \<open>Notions of the specification\<close>

text \<open>
  "Try pattern 1; if no match, try pattern 2 ... else report not-found": the first
  attempt, in the order of the list, that succeeds.
\<close>

fun first_fit :: "'a option list \<Rightarrow> 'a option" where
  "first_fit [] = None"
| "first_fit (None # rest) = first_fit rest"
| "first_fit (Some x # rest) = Some x"





text \<open>The numbers of the capture groups of a pattern.\<close>

fun grps :: "re \<Rightarrow> nat set" where
  "grps (Lit l) = {}"
| "grps (One k) = {}"
| "grps (Star k) = {}"
| "grps (LStar k) = {}"
| "grps (Plus k) = {}"
| "grps (Seq a b) = grps a \<union> grps b"
| "grps (Grp n a) = insert n (grps a)"
| "grps (Opt a) = grps a"
| "grps (NLook a) = grps a"

text \<open>The toggle element that the scripts insert.\<close>

definition toggle_tag :: string where
  \<open>toggle_tag = ''<DarkModeToggle />''\<close>

text \<open>The number of occurrences of a text in another.\<close>

fun occurrences :: "string \<Rightarrow> string \<Rightarrow> nat" where
  "occurrences sub [] = (if sub = [] then 1 else 0)"
| "occurrences sub (c # cs) = (if prefix sub (c # cs) then 1 else 0) + occurrences sub cs"

text \<open>
  One insertion: \<open>c'\<close> is \<open>content\<close> with one text put in at position \<open>i\<close>, every
  character of \<open>content\<close> before and after the position kept as it was.
\<close>

definition inserted_text :: "string \<Rightarrow> string \<Rightarrow> nat \<Rightarrow> string" where
  "inserted_text content c' i = slice c' i (i + (length c' - length content))"

definition inserted_at :: "string \<Rightarrow> string \<Rightarrow> nat \<Rightarrow> bool" where
  "inserted_at content c' i \<longleftrightarrow>
     i \<le> length content \<and> length content \<le> length c'
     \<and> c' = take i content @ inserted_text content c' i @ drop i content"

text \<open>
  The insertion of the toggle at an anchor: the pattern matches, the position of the
  insertion lies at the match (from its start to its end), and the inserted text holds
  the toggle exactly once.
\<close>

definition toggle_inserted :: "re \<Rightarrow> string \<Rightarrow> string \<Rightarrow> bool" where
  "toggle_inserted pat content c' \<longleftrightarrow>
     (case re_search pat content of
        None \<Rightarrow> False
      | Some m \<Rightarrow>
          (\<exists>i \<in> {m_start m..m_end m}.
             inserted_at content c' i
             \<and> occurrences toggle_tag (inserted_text content c' i) = 1))"

text \<open>
  What one per-file step on an existing path \<open>p\<close> may do to the world: it creates and
  removes no file, it opens \<open>p\<close> for reading once and no other path, and it keeps every
  line printed before.
\<close>

definition step_on :: "world \<Rightarrow> path \<Rightarrow> world \<Rightarrow> bool" where
  "step_on w p w' \<longleftrightarrow>
     (\<forall>q. path_exists w' q = path_exists w q) \<and> reads w' = reads w @ [p]
     \<and> set (out w) \<subseteq> set (out w')"

text \<open>
  What a loop over a file list may do to the world: it creates and removes no file, every
  path it opens for reading exists, and it keeps every path read and every line printed
  before.
\<close>

definition run_on :: "world \<Rightarrow> world \<Rightarrow> bool" where
  "run_on w w' \<longleftrightarrow>
     (\<forall>q. path_exists w' q = path_exists w q)
     \<and> set (reads w) \<subseteq> set (reads w')
     \<and> set (reads w') \<subseteq> set (reads w) \<union> {q. path_exists w q}
     \<and> set (out w) \<subseteq> set (out w')"

section \<open>Example worlds\<close>

text \<open>
  One file of the list of \<open>add_toggle_component.py\<close> exists; it has the import and no
  anchor of the standard page.
\<close>

definition manual_world :: world where
  \<open>manual_world =
     \<lparr>files = [''client/src/pages/customer/Checkout.tsx'' \<mapsto>
                 Node (Inr ''import DarkModeToggle from "../../components/DarkModeToggle";'') None],
      out = [], reads = [], writes = []\<rparr>\<close>

text \<open>No file exists, nothing has been printed, read or written.\<close>

definition empty_world :: world where
  "empty_world = \<lparr>files = Map.empty, out = [], reads = [], writes = []\<rparr>"

text \<open>
  Two files of the list of \<open>manual_toggle_add.py\<close> exist.  The first is not valid UTF-8,
  so reading it raises; the second holds a link to a dashboard and no toggle.
\<close>

definition broken_world :: world where
  \<open>broken_world =
     \<lparr>files = [''client/src/pages/customer/MyReviews.tsx'' \<mapsto>
                 Node (Inl (UnicodeDecodeError ''invalid start byte'')) None,
               ''client/src/pages/retailer/B2BCheckout.tsx'' \<mapsto>
                 Node (Inr ''<Link to="/retailer/dashboard">Back</Link>'') None],
      out = [], reads = [], writes = []\<rparr>\<close>

section \<open>Substrings and the matcher\<close>

lemma contains_iff: "contains sub s \<longleftrightarrow> (\<exists>pre post. s = pre @ sub @ post)"
proof (induction s)
  case Nil
  then show ?case by auto
next
  case (Cons c cs)
  show ?case
  proof
    assume "contains sub (c # cs)"
    then consider "prefix sub (c # cs)" | "contains sub cs" by auto
    then show "\<exists>pre post. c # cs = pre @ sub @ post"
    proof cases
      case 1
      then obtain post where "c # cs = sub @ post" by (auto simp: prefix_def)
      then have "c # cs = [] @ sub @ post" by simp
      then show ?thesis by blast
    next
      case 2
      with Cons obtain pre post where "cs = pre @ sub @ post" by blast
      then have "c # cs = (c # pre) @ sub @ post" by simp
      then show ?thesis by blast
    qed
  next
    assume "\<exists>pre post. c # cs = pre @ sub @ post"
    then obtain pre post where e: "c # cs = pre @ sub @ post" by blast
    show "contains sub (c # cs)"
    proof (cases pre)
      case Nil
      with e have "prefix sub (c # cs)" by (simp add: prefix_def)
      then show ?thesis by simp
    next
      case (Cons p pre')
      with e have "cs = pre' @ sub @ post" by simp
      with Cons.IH show ?thesis by auto
    qed
  qed
qed

lemma lit_match_iff: "lit_match l s = Some r \<longleftrightarrow> s = l @ r"
  by (induction l s rule: lit_match.induct) auto

lemma lit_match_iff2: "Some r = lit_match l s \<longleftrightarrow> s = l @ r"
  using lit_match_iff [of l s r] by auto

lemma star_greedy_set:
  "r \<in> set (star_greedy k s) \<longleftrightarrow> (\<exists>u. s = u @ r \<and> (\<forall>x\<in>set u. cmem k x))"
proof (induction s)
  case Nil
  then show ?case by auto
next
  case (Cons c cs)
  show ?case
  proof
    assume "r \<in> set (star_greedy k (c # cs))"
    then consider "r = c # cs" | "cmem k c" "r \<in> set (star_greedy k cs)"
      by (auto split: if_splits)
    then show "\<exists>u. c # cs = u @ r \<and> (\<forall>x\<in>set u. cmem k x)"
    proof cases
      case 1
      then have "c # cs = [] @ r \<and> (\<forall>x\<in>set []. cmem k x)" by simp
      then show ?thesis by blast
    next
      case 2
      with Cons obtain u where "cs = u @ r" "\<forall>x\<in>set u. cmem k x" by blast
      with 2 have "c # cs = (c # u) @ r \<and> (\<forall>x\<in>set (c # u). cmem k x)" by simp
      then show ?thesis by blast
    qed
  next
    assume "\<exists>u. c # cs = u @ r \<and> (\<forall>x\<in>set u. cmem k x)"
    then obtain u where u: "c # cs = u @ r" "\<forall>x\<in>set u. cmem k x" by blast
    show "r \<in> set (star_greedy k (c # cs))"
    proof (cases u)
      case Nil
      with u have "r = c # cs" by simp
      then show ?thesis by simp
    next
      case (Cons a u')
      with u have "cs = u' @ r" "cmem k c" "\<forall>x\<in>set u'. cmem k x" by auto
      with Cons.IH show ?thesis by auto
    qed
  qed
qed

lemma star_lazy_set: "set (star_lazy k s) = set (star_greedy k s)"
  by (induction s) auto

lemma ms_suffix: "(r, c') \<in> set (ms a s c) \<Longrightarrow> suffix r s"
proof (induction a arbitrary: s c r c')
  case (Lit l)
  then show ?case by (auto split: option.splits simp: lit_match_iff lit_match_iff2 suffix_def)
next
  case (One k)
  then show ?case by (auto split: list.splits if_splits simp: suffix_def)
next
  case (Star k)
  then show ?case by (auto simp: star_greedy_set suffix_def)
next
  case (LStar k)
  then show ?case by (auto simp: star_lazy_set star_greedy_set suffix_def)
next
  case (Plus k)
  then show ?case
    by (auto split: list.splits if_splits simp: star_greedy_set suffix_def)
next
  case (Seq a b)
  then show ?case by (fastforce intro: suffix_order.trans)
next
  case (Grp n a)
  then show ?case by auto
next
  case (Opt a)
  then show ?case by auto
next
  case (NLook a)
  then show ?case by (auto split: list.splits)
qed

section \<open>The summary of \<open>add_toggle_component.py\<close>\<close>

lemma str_bool_no_manual: \<open>\<not> contains ''[MANUAL]'' (str_bool b)\<close>
  by (cases b) simp_all

text \<open>The loop never changes \<open>manual_count\<close>: the test on \<open>str(result)\<close> cannot hold.\<close>

lemma tc_loop_manual_count:
  "tc_loop fs (w, n, k) = (w', n', k') \<Longrightarrow> k' = k"
proof (induction fs arbitrary: w n k)
  case Nil
  then show ?case by simp
next
  case (Cons f fs)
  then show ?case
    by (auto simp: str_bool_no_manual split: if_splits prod.splits)
qed

text \<open>
  C5.  The summary should report the number of files that need manual intervention.  In
  \<open>manual_world\<close> one file has no anchor and \<open>process_file\<close> prints \<open>[MANUAL]\<close> for it,
  yet the summary of \<open>main\<close> has no line for it: apart from the warnings for the missing
  files, the run prints exactly the lines below.
\<close>

theorem tc_manual_not_counted:
  \<open>filter (\<lambda>l. \<not> prefix ''[WARN]'' l) (out (tc_main manual_world)) =
     [rule60, ''Adding DarkModeToggle Component to Pages'', rule60,
      ''[MANUAL] client/src/pages/customer/Checkout.tsx - Needs manual intervention'',
      ''\<newline>'' @ rule60, ''Summary: Modified 0 files'', rule60]\<close>
  by code_simp

section \<open>Searching\<close>

lemma search_None_iff:
  "search r s = None \<longleftrightarrow> (\<forall>t. suffix t s \<longrightarrow> ms r t Map.empty = [])"
proof (induction s)
  case Nil
  then show ?case by (auto split: list.splits)
next
  case (Cons x xs)
  show ?case
  proof (cases "ms r (x # xs) Map.empty")
    case Nil
    have "(\<forall>t. suffix t (x # xs) \<longrightarrow> ms r t Map.empty = []) \<longleftrightarrow>
          (\<forall>t. suffix t xs \<longrightarrow> ms r t Map.empty = [])"
      using Nil by (auto simp: suffix_Cons)
    with Nil Cons show ?thesis by simp
  next
    case (Cons p ps)
    then have "\<not> (\<forall>t. suffix t (x # xs) \<longrightarrow> ms r t Map.empty = [])" by auto
    with Cons show ?thesis by (auto split: prod.splits)
  qed
qed

lemma search_Some:
  "search r s = Some (a, e, c) \<Longrightarrow>
     suffix a s \<and> (\<exists>rest. ms r a Map.empty = (e, c) # rest) \<and>
     (\<forall>t. suffix t s \<and> length a < length t \<longrightarrow> ms r t Map.empty = [])"
proof (induction s)
  case Nil
  then show ?case by (auto split: list.splits)
next
  case (Cons x xs)
  show ?case
  proof (cases "ms r (x # xs) Map.empty")
    case Nil
    with Cons.prems have "search r xs = Some (a, e, c)" by simp
    from Cons.IH [OF this] have ih: "suffix a xs" "\<exists>rest. ms r a Map.empty = (e, c) # rest"
      "\<forall>t. suffix t xs \<and> length a < length t \<longrightarrow> ms r t Map.empty = []" by auto
    have "\<forall>t. suffix t (x # xs) \<and> length a < length t \<longrightarrow> ms r t Map.empty = []"
      using ih(3) Nil by (auto simp: suffix_Cons)
    with ih show ?thesis by (auto simp: suffix_Cons)
  next
    case (Cons p ps)
    with Cons.prems have "a = x # xs" "p = (e, c)" by (auto split: prod.splits)
    with Cons show ?thesis by (auto dest: suffix_length_le)
  qed
qed

lemma scan_Nil_iff: "scan r 0 s = [] \<longleftrightarrow> search r s = None"
  by (induction s) (auto split: list.splits prod.splits)

lemma scan_mem:
  "(a, e, c) \<in> set (scan r k s) \<Longrightarrow> suffix a s \<and> (\<exists>rest. ms r a Map.empty = (e, c) # rest)"
proof (induction s arbitrary: k)
  case Nil
  then show ?case by (cases "ms r [] Map.empty") (auto split: if_splits)
next
  case (Cons x xs)
  show ?case
  proof (cases "0 < k")
    case True
    with Cons.prems have "(a, e, c) \<in> set (scan r (k - 1) xs)" by simp
    from Cons.IH [OF this] show ?thesis by (auto simp: suffix_Cons)
  next
    case False
    show ?thesis
    proof (cases "ms r (x # xs) Map.empty")
      case Nil
      with False Cons.prems have "(a, e, c) \<in> set (scan r 0 xs)" by simp
      from Cons.IH [OF this] show ?thesis by (auto simp: suffix_Cons)
    next
      case (Cons p ps)
      obtain e' c' where p: "p = (e', c')" by (cases p)
      with False Cons Cons.prems have
        "(a, e, c) = (x # xs, e', c') \<or> (a, e, c) \<in> set (scan r (length xs - length e') xs)"
        by simp
      then show ?thesis
      proof
        assume "(a, e, c) = (x # xs, e', c')"
        with Cons p show ?thesis by simp
      next
        assume "(a, e, c) \<in> set (scan r (length xs - length e') xs)"
        from Cons.IH [OF this] show ?thesis by (auto simp: suffix_Cons)
      qed
    qed
  qed
qed

lemma re_search_None_iff: "re_search r content = None \<longleftrightarrow> search r content = None"
  by (simp add: re_search_def)

lemma re_finditer_Nil_iff: "re_finditer r content = [] \<longleftrightarrow> re_search r content = None"
  by (simp add: re_finditer_def re_search_def scan_Nil_iff)

section \<open>The import step\<close>

text \<open>
  C10.  A text in which \<open>import_pattern\<close> matches nowhere is returned unchanged with
  \<open>False\<close>, whether or not it holds \<open>DarkModeToggle\<close>; and whenever \<open>add_import\<close>
  reports a change, the pattern has matches and the new statement stands on a line of
  its own right after the end of the last one.
\<close>

theorem add_import_only_after_import:
  \<open>(re_search import_pattern content = None \<longrightarrow> add_import content file_path = (content, False))
   \<and> (snd (add_import content file_path) \<longrightarrow>
        re_finditer import_pattern content \<noteq> [] \<and>
        fst (add_import content file_path) =
          take (m_end (last (re_finditer import_pattern content))) content
          @ ''\<newline>import DarkModeToggle from '' @ [CHR 0x27] @ get_import_path file_path
          @ [CHR 0x27] @ '';''
          @ drop (m_end (last (re_finditer import_pattern content))) content)\<close>
  by (auto simp: add_import_def Let_def re_finditer_Nil_iff)

theorem add_import_only_after_import_witness:
  \<open>re_search import_pattern ''const x = 1;'' = None
   \<and> add_import ''const x = 1;'' ''client/src/pages/auth/Login.tsx'' = (''const x = 1;'', False)
   \<and> snd (add_import ''import A from "a";x'' ''client/src/pages/auth/Login.tsx'')
   \<and> fst (add_import ''import A from "a";x'' ''client/src/pages/auth/Login.tsx'') =
       ''import A from "a";\<newline>import DarkModeToggle from '' @ [CHR 0x27]
       @ ''../components/DarkModeToggle'' @ [CHR 0x27] @ '';x''\<close>
proof -
  have h1: \<open>re_search import_pattern ''const x = 1;'' = None\<close> by code_simp
  have h2: \<open>snd (add_import ''import A from "a";x'' ''client/src/pages/auth/Login.tsx'')\<close>
    by code_simp
  have e: \<open>m_end (last (re_finditer import_pattern ''import A from "a";x'')) = 18\<close>
    by code_simp
  have g: \<open>get_import_path ''client/src/pages/auth/Login.tsx'' = ''../components/DarkModeToggle''\<close>
    by code_simp
  from add_import_only_after_import [of \<open>''const x = 1;''\<close> \<open>''client/src/pages/auth/Login.tsx''\<close>] h1
  have r1: \<open>add_import ''const x = 1;'' ''client/src/pages/auth/Login.tsx'' = (''const x = 1;'', False)\<close>
    by blast
  from add_import_only_after_import [of \<open>''import A from "a";x''\<close> \<open>''client/src/pages/auth/Login.tsx''\<close>] h2
  have r2: \<open>fst (add_import ''import A from "a";x'' ''client/src/pages/auth/Login.tsx'') =
          take (m_end (last (re_finditer import_pattern ''import A from "a";x''))) ''import A from "a";x''
          @ ''\<newline>import DarkModeToggle from '' @ [CHR 0x27] @ get_import_path ''client/src/pages/auth/Login.tsx''
          @ [CHR 0x27] @ '';''
          @ drop (m_end (last (re_finditer import_pattern ''import A from "a";x''))) ''import A from "a";x''\<close>
    by blast
  from r2 have r3: \<open>fst (add_import ''import A from "a";x'' ''client/src/pages/auth/Login.tsx'') =
       ''import A from "a";\<newline>import DarkModeToggle from '' @ [CHR 0x27]
       @ ''../components/DarkModeToggle'' @ [CHR 0x27] @ '';x''\<close>
    unfolding e g by simp
  from h1 r1 h2 r3 show ?thesis by blast
qed

section \<open>No anchor\<close>




section \<open>The priority order of the patterns\<close>


text \<open>\<open>first_fit\<close> gives the attempt before which every attempt failed.\<close>

lemma first_fit_Some_iff:
  "first_fit xs = Some x \<longleftrightarrow>
     (\<exists>i < length xs. xs ! i = Some x \<and> (\<forall>j < i. xs ! j = None))"
proof (induction xs rule: first_fit.induct)
  case 1
  then show ?case by simp
next
  case (2 rest)
  show ?case
  proof
    assume "first_fit (None # rest) = Some x"
    with 2 obtain i where "i < length rest" "rest ! i = Some x" "\<forall>j < i. rest ! j = None"
      by auto
    then have "Suc i < length (None # rest) \<and> (None # rest) ! Suc i = Some x
               \<and> (\<forall>j < Suc i. (None # rest) ! j = None)"
      by (auto simp: nth_Cons split: nat.splits)
    then show "\<exists>i < length (None # rest). (None # rest) ! i = Some x
                 \<and> (\<forall>j < i. (None # rest) ! j = None)" by blast
  next
    assume "\<exists>i < length (None # rest). (None # rest) ! i = Some x
                 \<and> (\<forall>j < i. (None # rest) ! j = None)"
    then obtain i where i: "i < length (None # rest)" "(None # rest) ! i = Some x"
      "\<forall>j < i. (None # rest) ! j = None" by blast
    then obtain i' where i': "i = Suc i'" by (cases i) auto
    with i have "i' < length rest" "rest ! i' = Some x" by auto
    moreover have "\<forall>j < i'. rest ! j = None"
    proof (intro allI impI)
      fix j assume "j < i'"
      with i(3) i' have "(None # rest) ! Suc j = None" by (metis Suc_less_eq)
      then show "rest ! j = None" by simp
    qed
    ultimately show "first_fit (None # rest) = Some x" using 2 by auto
  qed
next
  case (3 y rest)
  show ?case
  proof
    assume "first_fit (Some y # rest) = Some x"
    then have "0 < length (Some y # rest) \<and> (Some y # rest) ! 0 = Some x
               \<and> (\<forall>j < 0. (Some y # rest) ! j = None)" by simp
    then show "\<exists>i < length (Some y # rest). (Some y # rest) ! i = Some x
                 \<and> (\<forall>j < i. (Some y # rest) ! j = None)" by blast
  next
    assume "\<exists>i < length (Some y # rest). (Some y # rest) ! i = Some x
                 \<and> (\<forall>j < i. (Some y # rest) ! j = None)"
    then obtain i where i: "(Some y # rest) ! i = Some x" "\<forall>j < i. (Some y # rest) ! j = None"
      by blast
    have "i = 0"
    proof (rule ccontr)
      assume "i \<noteq> 0"
      then have "0 < i" by simp
      with i(2) have "(Some y # rest) ! 0 = None" by blast
      then show False by simp
    qed
    with i show "first_fit (Some y # rest) = Some x" by simp
  qed
qed






section \<open>Every patch leaves the toggle in the text\<close>

lemma contains_appendI1: "contains sub x \<Longrightarrow> contains sub (x @ y)"
proof -
  assume "contains sub x"
  then obtain pre post where "x = pre @ sub @ post" by (auto simp: contains_iff)
  then have "x @ y = pre @ sub @ (post @ y)" by simp
  then show ?thesis unfolding contains_iff by blast
qed

lemma contains_appendI2: "contains sub y \<Longrightarrow> contains sub (x @ y)"
proof -
  assume "contains sub y"
  then obtain pre post where "y = pre @ sub @ post" by (auto simp: contains_iff)
  then have "x @ y = (x @ pre) @ sub @ post" by simp
  then show ?thesis unfolding contains_iff by blast
qed

lemma contains_toggle_mid:
  \<open>contains ''<DarkModeToggle'' (a @ ''<DarkModeToggle />'' @ b)\<close>
proof -
  have \<open>a @ ''<DarkModeToggle />'' @ b = a @ ''<DarkModeToggle'' @ ('' />'' @ b)\<close> by simp
  then show ?thesis unfolding contains_iff by blast
qed

lemma contains_toggle_nl:
  \<open>contains ''<DarkModeToggle'' (a @ ''<DarkModeToggle />\<newline>'' @ b)\<close>
  \<open>contains ''<DarkModeToggle'' (a @ ''<DarkModeToggle />\<newline>\<newline>'' @ b)\<close>
  \<open>contains ''<DarkModeToggle'' (a @ ''<DarkModeToggle />\<newline>              '' @ b)\<close>
  using contains_toggle_mid [of a \<open>''\<newline>'' @ b\<close>]
    contains_toggle_mid [of a \<open>''\<newline>\<newline>'' @ b\<close>]
    contains_toggle_mid [of a \<open>''\<newline>              '' @ b\<close>]
  by simp_all

lemma fin_insert_toggle: \<open>contains ''<DarkModeToggle'' (fin_insert content m)\<close>
  by (simp add: fin_insert_def Let_def contains_appendI2)

lemma fin_loop1_toggle:
  \<open>fin_loop1 content xs = Some c \<Longrightarrow> contains ''<DarkModeToggle'' c\<close>
  by (induction xs) (auto simp: Let_def fin_insert_toggle split: if_splits)

lemma fin_loop2_toggle:
  \<open>fin_loop2 content xs = Some c \<Longrightarrow> contains ''<DarkModeToggle'' c\<close>
  by (induction xs) (auto simp: Let_def fin_insert_toggle split: if_splits)

lemma fin_try3_toggle:
  assumes \<open>fin_try3 content = Some c\<close>
  shows \<open>contains ''<DarkModeToggle'' c\<close>
proof -
  from assms obtain m where
    c: \<open>c = take (m_start m) content @ (fstr (group content m 1)
          @ group_or (group content m 2) ''\<newline>              '' @ ''<DarkModeToggle />''
          @ group_or (group content m 2) ''\<newline>              '' @ fstr (group content m 3))
          @ drop (m_end m) content\<close>
    by (auto simp: fin_try3_def Let_def split: option.splits if_splits)
  show ?thesis unfolding c
    by (intro contains_appendI2 contains_appendI1 contains_toggle_mid)
qed

lemma add_toggle_generic_True:
  \<open>add_toggle_generic content = (c, True) \<Longrightarrow> contains ''<DarkModeToggle'' c\<close>
  by (auto simp: add_toggle_generic_def split: option.splits
           dest: fin_loop1_toggle fin_loop2_toggle fin_try3_toggle)

lemma add_toggle_generic_False: "add_toggle_generic content = (c, False) \<Longrightarrow> c = content"
  by (auto simp: add_toggle_generic_def split: option.splits)

lemma toggle_html_toggle: \<open>contains ''<DarkModeToggle'' (a @ toggle_html @ b)\<close>
proof -
  have \<open>a @ toggle_html @ b =
      (a @ ''\<newline>      {/* Dark Mode Toggle */}\<newline>      <div className="absolute top-4 right-4">\<newline>        '')
      @ ''<DarkModeToggle'' @ ('' />\<newline>      </div>\<newline>'' @ b)\<close>
    by (simp add: toggle_html_def)
  then show ?thesis unfolding contains_iff by blast
qed

lemma auth_page_True:
  \<open>add_toggle_to_auth_page content = (c, True) \<Longrightarrow> contains ''<DarkModeToggle'' c\<close>
  by (auto simp: add_toggle_to_auth_page_def Let_def toggle_html_toggle split: option.splits)

lemma auth_page_False: "add_toggle_to_auth_page content = (c, False) \<Longrightarrow> c = content"
  by (auto simp: add_toggle_to_auth_page_def Let_def split: option.splits)

lemma std_apply1_toggle:
  \<open>std_apply1 content m = Inr (c, b) \<Longrightarrow> b \<and> contains ''<DarkModeToggle'' c\<close>
  unfolding std_apply1_def Let_def
  by (auto intro!: contains_appendI2 contains_toggle_nl)

lemma std_apply2_toggle:
  \<open>std_apply2 content m = Inr (c, b) \<Longrightarrow> b \<and> contains ''<DarkModeToggle'' c\<close>
  unfolding std_apply2_def Let_def
  by (auto split: option.splits intro!: contains_appendI2 contains_toggle_mid)

lemma std_apply3_toggle:
  \<open>std_apply3 content m = Inr (c, b) \<Longrightarrow> b \<and> contains ''<DarkModeToggle'' c\<close>
  unfolding std_apply3_def Let_def
  by (auto split: option.splits intro!: contains_appendI2 contains_toggle_mid)

lemma std_apply4_toggle:
  \<open>std_apply4 content m = Inr (c, b) \<Longrightarrow> b \<and> contains ''<DarkModeToggle'' c\<close>
proof -
  have \<open>contains ''<DarkModeToggle''
          (a @ ''\<newline>              <DarkModeToggle />\<newline>              '' @ d)\<close> for a d
    using contains_toggle_mid [of \<open>a @ ''\<newline>              ''\<close> \<open>''\<newline>              '' @ d\<close>]
    by simp
  then show \<open>std_apply4 content m = Inr (c, b) \<Longrightarrow> b \<and> contains ''<DarkModeToggle'' c\<close>
    unfolding std_apply4_def Let_def by auto
qed

lemma standard_page_True:
  \<open>add_toggle_to_standard_page content = Inr (c, True) \<Longrightarrow> contains ''<DarkModeToggle'' c\<close>
  by (auto simp: add_toggle_to_standard_page_def split: option.splits
           dest: std_apply1_toggle std_apply2_toggle std_apply3_toggle std_apply4_toggle)

lemma standard_page_False:
  "add_toggle_to_standard_page content = Inr (c, False) \<Longrightarrow> c = content"
  by (auto simp: add_toggle_to_standard_page_def split: option.splits
           dest: std_apply1_toggle std_apply2_toggle std_apply3_toggle std_apply4_toggle)

lemma tc_patch_True:
  \<open>tc_patch p content = Inr (c, True) \<Longrightarrow> contains ''<DarkModeToggle'' c\<close>
  by (auto simp: tc_patch_def split: if_splits dest: auth_page_True standard_page_True)

lemma tc_patch_False: "tc_patch p content = Inr (c, False) \<Longrightarrow> c = content"
  by (auto simp: tc_patch_def split: if_splits dest: auth_page_False standard_page_False)

lemma manual_patch_toggle:
  \<open>manual_patch content = Some c \<Longrightarrow> contains ''<DarkModeToggle'' c\<close>
  unfolding manual_patch_def Let_def
  by (auto split: option.splits if_splits simp: contains_appendI2)

section \<open>A file is written exactly when its content changes\<close>

lemma fin_transform_cases:
  \<open>fin_transform content \<noteq> content \<longleftrightarrow>
     \<not> contains ''<DarkModeToggle'' content \<and> contains ''import DarkModeToggle'' content
     \<and> snd (add_toggle_generic content)\<close>
proof (cases "add_toggle_generic content")
  case (Pair c m)
  then show ?thesis
    using add_toggle_generic_True [of content c] add_toggle_generic_False [of content c]
    by (cases m) (auto simp: fin_transform_def)
qed

lemma tc_transform_cases:
  \<open>tc_transform p content \<noteq> content \<longleftrightarrow>
     \<not> contains ''<DarkModeToggle'' content \<and> contains ''import DarkModeToggle'' content
     \<and> (\<exists>c. tc_patch p content = Inr (c, True))\<close>
proof (cases "tc_patch p content")
  case (Inl e)
  then show ?thesis by (simp add: tc_transform_def)
next
  case (Inr r)
  obtain c m where r: "r = (c, m)" by (cases r)
  with Inr show ?thesis
    using tc_patch_True [of p content c] tc_patch_False [of p content c]
    by (cases m) (auto simp: tc_transform_def)
qed

lemma man_transform_cases:
  \<open>man_transform content \<noteq> content \<longleftrightarrow>
     \<not> contains ''<DarkModeToggle'' content \<and> manual_patch content \<noteq> None\<close>
  using manual_patch_toggle [of content]
  by (auto simp: man_transform_def split: option.splits)

lemma dm_writes:
  assumes "files w p = Some (Node (Inr content) wr)"
  shows "writes (snd (dm_process_file p w)) =
           (if dm_transform p content \<noteq> content \<and> wr = None then writes w @ [p] else writes w)
         \<and> (wr = None \<longrightarrow> files (snd (dm_process_file p w)) =
               (files w)(p \<mapsto> Node (Inr (dm_transform p content)) None))"
  using assms
  by (auto simp: dm_process_file_def dm_transform_def read_text_def print_def write_text_def
                 store_def fun_upd_idem
           split: sum.splits prod.splits option.splits)

lemma fin_writes:
  assumes "files w p = Some (Node (Inr content) wr)"
  shows "writes (snd (fin_process_file p w)) =
           (if fin_transform content \<noteq> content \<and> wr = None then writes w @ [p] else writes w)
         \<and> (wr = None \<longrightarrow> files (snd (fin_process_file p w)) =
               (files w)(p \<mapsto> Node (Inr (fin_transform content)) None))"
proof (cases "fin_transform content \<noteq> content")
  case True
  then obtain c where c: "add_toggle_generic content = (c, True)"
    \<open>\<not> contains ''<DarkModeToggle'' content\<close> \<open>contains ''import DarkModeToggle'' content\<close>
    unfolding fin_transform_cases by (cases "add_toggle_generic content") auto
  then have "fin_transform content = c" by (simp add: fin_transform_def)
  with True c assms show ?thesis
    by (auto simp: fin_process_file_def read_text_def print_def write_text_def store_def
             split: option.splits)
next
  case False
  then have t: "fin_transform content = content" by simp
  from False have "contains ''<DarkModeToggle'' content \<or> \<not> contains ''import DarkModeToggle'' content
     \<or> \<not> snd (add_toggle_generic content)"
    unfolding fin_transform_cases by blast
  with t assms show ?thesis
    by (auto simp: fin_process_file_def read_text_def print_def fun_upd_idem
             split: prod.splits)
qed

lemma tc_writes:
  assumes "files w p = Some (Node (Inr content) wr)"
  shows "writes (snd (tc_process_file p w)) =
           (if tc_transform p content \<noteq> content \<and> wr = None then writes w @ [p] else writes w)
         \<and> (wr = None \<longrightarrow> files (snd (tc_process_file p w)) =
               (files w)(p \<mapsto> Node (Inr (tc_transform p content)) None))"
proof (cases "tc_transform p content \<noteq> content")
  case True
  then obtain c where c: "tc_patch p content = Inr (c, True)"
    \<open>\<not> contains ''<DarkModeToggle'' content\<close> \<open>contains ''import DarkModeToggle'' content\<close>
    unfolding tc_transform_cases by auto
  then have "tc_transform p content = c" by (simp add: tc_transform_def)
  with True c assms show ?thesis
    by (auto simp: tc_process_file_def read_text_def print_def write_text_def store_def
             split: option.splits)
next
  case False
  then have t: "tc_transform p content = content" by simp
  from False have "contains ''<DarkModeToggle'' content \<or> \<not> contains ''import DarkModeToggle'' content
     \<or> \<not> (\<exists>c. tc_patch p content = Inr (c, True))"
    unfolding tc_transform_cases by blast
  with t assms show ?thesis
    by (auto simp: tc_process_file_def read_text_def print_def fun_upd_idem
             split: prod.splits sum.splits)
qed

lemma man_writes:
  assumes "files w p = Some (Node (Inr content) wr)"
  shows "writes (snd (add_toggle p w)) =
           (if man_transform content \<noteq> content \<and> wr = None then writes w @ [p] else writes w)
         \<and> (wr = None \<longrightarrow> files (snd (add_toggle p w)) =
               (files w)(p \<mapsto> Node (Inr (man_transform content)) None))"
proof (cases "man_transform content \<noteq> content")
  case True
  then obtain c where c: "manual_patch content = Some c"
    \<open>\<not> contains ''<DarkModeToggle'' content\<close>
    unfolding man_transform_cases by auto
  then have "man_transform content = c" by (simp add: man_transform_def)
  with True c assms show ?thesis
    by (auto simp: add_toggle_def read_text_def print_def write_text_def store_def
             split: option.splits)
next
  case False
  then have t: "man_transform content = content" by simp
  from False have "contains ''<DarkModeToggle'' content \<or> manual_patch content = None"
    unfolding man_transform_cases by blast
  with t assms show ?thesis
    by (auto simp: add_toggle_def read_text_def print_def fun_upd_idem)
qed

text \<open>
  C6.  A file that can be read is written by the per-file step of each script exactly
  when the transformed content differs from the content read (and the file can be opened
  for writing); a file that can be written then holds the transformed content.
\<close>

theorem written_iff_changed:
  assumes "files w p = Some (Node (Inr content) wr)"
  shows "(writes (snd (dm_process_file p w)) =
           (if dm_transform p content \<noteq> content \<and> wr = None then writes w @ [p] else writes w)
         \<and> (wr = None \<longrightarrow> files (snd (dm_process_file p w)) =
               (files w)(p \<mapsto> Node (Inr (dm_transform p content)) None)))
    \<and> (writes (snd (tc_process_file p w)) =
           (if tc_transform p content \<noteq> content \<and> wr = None then writes w @ [p] else writes w)
         \<and> (wr = None \<longrightarrow> files (snd (tc_process_file p w)) =
               (files w)(p \<mapsto> Node (Inr (tc_transform p content)) None)))
    \<and> (writes (snd (fin_process_file p w)) =
           (if fin_transform content \<noteq> content \<and> wr = None then writes w @ [p] else writes w)
         \<and> (wr = None \<longrightarrow> files (snd (fin_process_file p w)) =
               (files w)(p \<mapsto> Node (Inr (fin_transform content)) None)))
    \<and> (writes (snd (add_toggle p w)) =
           (if man_transform content \<noteq> content \<and> wr = None then writes w @ [p] else writes w)
         \<and> (wr = None \<longrightarrow> files (snd (add_toggle p w)) =
               (files w)(p \<mapsto> Node (Inr (man_transform content)) None)))"
  using dm_writes [OF assms] tc_writes [OF assms] fin_writes [OF assms] man_writes [OF assms]
  by blast

theorem written_iff_changed_witness:
  \<open>writes (snd (fin_process_file ''p''
       \<lparr>files = [''p'' \<mapsto> Node (Inr ''import DarkModeToggle;<div className="flex items-center gap-4">'') None],
        out = [], reads = [], writes = []\<rparr>)) = [''p'']
   \<and> writes (snd (dm_process_file ''p''
       \<lparr>files = [''p'' \<mapsto> Node (Inr ''import DarkModeToggle;<div className="flex items-center gap-4">'') None],
        out = [], reads = [], writes = []\<rparr>)) = []
   \<and> writes (snd (tc_process_file ''p''
       \<lparr>files = [''p'' \<mapsto> Node (Inr ''import DarkModeToggle;<div className="flex items-center gap-4">'') None],
        out = [], reads = [], writes = []\<rparr>)) = []
   \<and> writes (snd (add_toggle ''p''
       \<lparr>files = [''p'' \<mapsto> Node (Inr ''import DarkModeToggle;<div className="flex items-center gap-4">'') None],
        out = [], reads = [], writes = []\<rparr>)) = []\<close>
proof -
  let ?c = \<open>''import DarkModeToggle;<div className="flex items-center gap-4">''\<close>
  let ?w = \<open>\<lparr>files = [''p'' \<mapsto> Node (Inr ?c) None], out = [], reads = [], writes = []\<rparr>\<close>
  have f: "files ?w ''p'' = Some (Node (Inr ?c) None)" by simp
  have t1: "fin_transform ?c \<noteq> ?c" by code_simp
  have t2: "dm_transform ''p'' ?c = ?c" by code_simp
  have t3: "tc_transform ''p'' ?c = ?c" by code_simp
  have t4: "man_transform ?c = ?c" by code_simp
  from written_iff_changed [OF f] t1 t2 t3 t4 show ?thesis by simp
qed

section \<open>Running a script twice\<close>










section \<open>What a per-file step does to the world\<close>

lemma path_exists_print [simp]: "path_exists (print l w) q = path_exists w q"
  by (simp add: path_exists_def print_def)

lemma reads_print [simp]: "reads (print l w) = reads w"
  by (simp add: print_def)

lemma writes_print [simp]: "writes (print l w) = writes w"
  by (simp add: print_def)

lemma out_print [simp]: "out (print l w) = out w @ [l]"
  by (simp add: print_def)

lemma files_print [simp]: "files (print l w) = files w"
  by (simp add: print_def)

lemma step_on_read: "step_on w p (w\<lparr>reads := reads w @ [p]\<rparr>)"
  by (simp add: step_on_def path_exists_def)

lemma step_on_read_print: "step_on w p ((print l w)\<lparr>reads := reads w @ [p]\<rparr>)"
  by (auto simp: step_on_def path_exists_def print_def)

lemma step_on_print: "step_on w p w1 \<Longrightarrow> step_on w p (print l w1)"
  by (auto simp: step_on_def)

lemma step_on_write:
  assumes "step_on w p w1" and "path_exists w p" and "write_text w1 p s = Inr w2"
  shows "step_on w p w2"
proof -
  from assms(1,2) have "files w1 p \<noteq> None" by (simp add: step_on_def path_exists_def)
  with assms(3) have "w2 = store w1 p s"
    by (auto simp: write_text_def split: option.splits)
  with assms(1) \<open>files w1 p \<noteq> None\<close> show ?thesis
    by (auto simp: step_on_def store_def path_exists_def)
qed

lemma fin_process_step:
  assumes "path_exists w p"
  shows "step_on w p (snd (fin_process_file p w))"
proof -
  let ?w1 = "w\<lparr>reads := reads w @ [p]\<rparr>"
  note s = step_on_read [of w p]
  obtain x where x: "read_text w p = (x, ?w1)" by (simp add: read_text_def)
  show ?thesis
  proof (cases x)
    case (Inl e)
    with x s show ?thesis by (simp add: fin_process_file_def step_on_print)
  next
    case (Inr content)
    obtain c m where g: "add_toggle_generic content = (c, m)" by (cases "add_toggle_generic content")
    show ?thesis
    proof (cases "write_text ?w1 p c")
      case (Inl e)
      with x Inr g s show ?thesis by (simp add: fin_process_file_def step_on_print)
    next
      case (Inr w2)
      with s assms have "step_on w p w2" by (rule step_on_write)
      with x \<open>x = Inr content\<close> g s Inr show ?thesis
        by (simp add: fin_process_file_def step_on_print)
    qed
  qed
qed

lemma tc_process_step:
  assumes "path_exists w p"
  shows "step_on w p (snd (tc_process_file p w))"
proof -
  let ?w1 = "w\<lparr>reads := reads w @ [p]\<rparr>"
  note s = step_on_read [of w p]
  obtain x where x: "read_text w p = (x, ?w1)" by (simp add: read_text_def)
  show ?thesis
  proof (cases x)
    case (Inl e)
    with x s show ?thesis by (simp add: tc_process_file_def step_on_print)
  next
    case (Inr content)
    note c = this
    show ?thesis
    proof (cases "tc_patch p content")
      case (Inl e)
      with x c s show ?thesis by (simp add: tc_process_file_def step_on_print)
    next
      case (Inr r)
      obtain c' m where r: "r = (c', m)" by (cases r)
      show ?thesis
      proof (cases "write_text ?w1 p c'")
        case (Inl e)
        with x c Inr r s show ?thesis by (simp add: tc_process_file_def step_on_print)
      next
        case (Inr w2)
        with s assms have "step_on w p w2" by (rule step_on_write)
        with x c \<open>tc_patch p content = Inr r\<close> r s Inr show ?thesis
          by (simp add: tc_process_file_def step_on_print)
      qed
    qed
  qed
qed

lemma dm_process_step:
  assumes "path_exists w p"
  shows "step_on w p (snd (dm_process_file p w))"
proof -
  let ?w1 = "(print (''\<newline>Processing: '' @ p) w)\<lparr>reads := reads w @ [p]\<rparr>"
  note s = step_on_read_print [of w p "''\<newline>Processing: '' @ p"]
  obtain x where x: "read_text (print (''\<newline>Processing: '' @ p) w) p = (x, ?w1)"
    by (simp add: read_text_def)
  show ?thesis
  proof (cases x)
    case (Inl e)
    with x s show ?thesis by (simp add: dm_process_file_def step_on_print)
  next
    case (Inr content)
    note c = this
    show ?thesis
    proof (cases "dm_steps p content")
      case (Inl e)
      with x c s show ?thesis by (simp add: dm_process_file_def step_on_print)
    next
      case (Inr r)
      obtain c' ch where r: "r = (c', ch)" by (cases r)
      show ?thesis
      proof (cases "write_text ?w1 p c'")
        case (Inl e)
        with x c Inr r s show ?thesis by (simp add: dm_process_file_def step_on_print)
      next
        case (Inr w2)
        with s assms have "step_on w p w2" by (rule step_on_write)
        with x c \<open>dm_steps p content = Inr r\<close> r s Inr show ?thesis
          by (simp add: dm_process_file_def step_on_print)
      qed
    qed
  qed
qed

lemma add_toggle_step:
  assumes "path_exists w p"
  shows "step_on w p (snd (add_toggle p w))"
proof -
  let ?w1 = "w\<lparr>reads := reads w @ [p]\<rparr>"
  note s = step_on_read [of w p]
  obtain x where x: "read_text w p = (x, ?w1)" by (simp add: read_text_def)
  show ?thesis
  proof (cases x)
    case (Inl e)
    with x s show ?thesis by (simp add: add_toggle_def)
  next
    case (Inr content)
    note c = this
    show ?thesis
    proof (cases "manual_patch content")
      case None
      with x c s show ?thesis by (simp add: add_toggle_def step_on_print)
    next
      case (Some c')
      show ?thesis
      proof (cases "write_text ?w1 p c'")
        case (Inl e)
        with x c Some s show ?thesis by (simp add: add_toggle_def step_on_print)
      next
        case (Inr w2)
        with s assms have "step_on w p w2" by (rule step_on_write)
        with x c Some s Inr show ?thesis
          by (simp add: add_toggle_def step_on_print)
      qed
    qed
  qed
qed

section \<open>The loops over the file lists\<close>

lemma step_on_run: "step_on w p w' \<Longrightarrow> path_exists w p \<Longrightarrow> run_on w w'"
  by (auto simp: step_on_def run_on_def)

lemma run_on_refl: "run_on w w"
  by (simp add: run_on_def)

lemma run_on_print: "run_on w w1 \<Longrightarrow> run_on w (print l w1)"
  by (auto simp: run_on_def)

lemma run_on_trans: "run_on w w1 \<Longrightarrow> run_on w1 w2 \<Longrightarrow> run_on w w2"
  by (auto simp: run_on_def)

lemma fin_loop_run: "run_on w (fst (fin_loop fs (w, n)))"
proof (induction fs arbitrary: w n)
  case Nil
  then show ?case by (simp add: run_on_refl)
next
  case (Cons f fs)
  show ?case
  proof (cases "path_exists w f")
    case False
    with Cons show ?thesis by simp
  next
    case True
    obtain r w1 where p: "fin_process_file f w = (r, w1)" by (cases "fin_process_file f w")
    with fin_process_step [OF True] have "run_on w w1" using True by (auto intro: step_on_run)
    moreover have "run_on w1 (fst (fin_loop fs (w1, k)))" for k by (rule Cons.IH)
    ultimately show ?thesis using True p by (cases r) (auto intro: run_on_trans)
  qed
qed

lemma tc_loop_run: "run_on w (fst (tc_loop fs (w, n, k)))"
proof (induction fs arbitrary: w n k)
  case Nil
  then show ?case by (simp add: run_on_refl)
next
  case (Cons f fs)
  show ?case
  proof (cases "path_exists w f")
    case False
    have "run_on w (print (''[WARN] File not found: '' @ f) w)"
      by (intro run_on_print run_on_refl)
    moreover have "run_on (print (''[WARN] File not found: '' @ f) w)
       (fst (tc_loop fs (print (''[WARN] File not found: '' @ f) w, n, k)))" by (rule Cons.IH)
    ultimately show ?thesis using False by (auto intro: run_on_trans)
  next
    case True
    obtain r w1 where p: "tc_process_file f w = (r, w1)" by (cases "tc_process_file f w")
    with tc_process_step [OF True] have "run_on w w1" using True by (auto intro: step_on_run)
    moreover have "run_on w1 (fst (tc_loop fs (w1, a, b)))" for a b by (rule Cons.IH)
    ultimately show ?thesis using True p
      by (cases r) (auto simp: str_bool_no_manual intro: run_on_trans)
  qed
qed

lemma man_loop_run: "run_on w (snd (man_loop fs (w, n)))"
proof (induction fs arbitrary: w n)
  case Nil
  then show ?case by (simp add: run_on_refl)
next
  case (Cons f fs)
  show ?case
  proof (cases "path_exists w f")
    case False
    with Cons show ?thesis by simp
  next
    case True
    obtain r w1 where p: "add_toggle f w = (r, w1)" by (cases "add_toggle f w")
    with add_toggle_step [OF True] have 1: "run_on w w1" using True by (auto intro: step_on_run)
    have 2: "run_on w1 (snd (man_loop fs (w1, k)))" for k by (rule Cons.IH)
    show ?thesis
    proof (cases r)
      case (Inl e)
      with True p 1 show ?thesis by simp
    next
      case (Inr b)
      with True p 1 2 show ?thesis by (cases b) (auto intro: run_on_trans)
    qed
  qed
qed

lemma dm_file_loop_run: "run_on w (fst (dm_file_loop fs (w, t, m)))"
proof (induction fs arbitrary: w t m)
  case Nil
  then show ?case by (simp add: run_on_refl)
next
  case (Cons f fs)
  let ?p = "path_join dm_base_dir f"
  have ih: "run_on w1 (fst (dm_file_loop fs (w1, a, b)))" for w1 a b by (rule Cons.IH)
  show ?case
  proof (cases "unbackslash ?p \<in> dm_skip_files")
    case True
    have "run_on w (print (''\<newline>[SKIP] Skipping: '' @ ?p @ '' (already done)'') w)"
      by (intro run_on_print run_on_refl)
    with ih True show ?thesis by (auto simp: Let_def intro: run_on_trans)
  next
    case False
    note ns = this
    show ?thesis
    proof (cases "path_exists w ?p")
      case False
      have "run_on w (print (''\<newline>[WARN] File not found: '' @ ?p) w)"
        by (intro run_on_print run_on_refl)
      with ih ns False show ?thesis by (auto simp: Let_def intro: run_on_trans)
    next
      case True
      obtain r w1 where p: "dm_process_file ?p w = (r, w1)" by (cases "dm_process_file ?p w")
      with dm_process_step [OF True] have "run_on w w1" using True by (auto intro: step_on_run)
      with ih ns True p show ?thesis by (cases r) (auto simp: Let_def intro: run_on_trans)
    qed
  qed
qed

lemma dm_page_loop_run: "run_on w (fst (dm_page_loop pages (w, t, m)))"
proof (induction pages arbitrary: w t m)
  case Nil
  then show ?case by (simp add: run_on_refl)
next
  case (Cons pg pages)
  obtain category file_list where pg: "pg = (category, file_list)" by (cases pg)
  let ?w1 = "print rule60 (print (category @ '' Pages'') (print (''\<newline>'' @ rule60) w))"
  obtain w2 t2 m2 where l: "dm_file_loop file_list (?w1, t, m) = (w2, t2, m2)"
    by (cases "dm_file_loop file_list (?w1, t, m)")
  have "run_on w ?w1" by (intro run_on_print run_on_refl)
  moreover have "run_on ?w1 w2" using dm_file_loop_run [of ?w1 file_list t m] l by simp
  moreover have "run_on w2 (fst (dm_page_loop pages (w2, t2, m2)))" by (rule Cons.IH)
  ultimately show ?case using pg l by (auto intro: run_on_trans)
qed

section \<open>Missing files\<close>

lemma tc_run_on: "run_on w (tc_run fs w)"
proof -
  let ?w0 = "print rule60 (print ''Adding DarkModeToggle Component to Pages'' (print rule60 w))"
  obtain w1 n k where l: "tc_loop fs (?w0, 0, 0) = (w1, n, k)" by (cases "tc_loop fs (?w0, 0, 0)")
  have "run_on w ?w0" by (intro run_on_print run_on_refl)
  moreover have "run_on ?w0 w1" using tc_loop_run [of ?w0 fs 0 0] l by simp
  ultimately have "run_on w w1" by (rule run_on_trans)
  then have "run_on w (print a (print b (print c w1)))" "run_on w (print a (print b (print c (print d w1))))"
    for a b c d by (intro run_on_print; assumption)+
  then show ?thesis using l by (simp add: tc_run_def Let_def)
qed

lemma fin_run_on: "run_on w (fin_run fs w)"
proof -
  let ?w0 = "print rule60 (print ''Final Pass: Adding DarkModeToggle'' (print rule60 w))"
  obtain w1 n where l: "fin_loop fs (?w0, 0) = (w1, n)" by (cases "fin_loop fs (?w0, 0)")
  have "run_on w ?w0" by (intro run_on_print run_on_refl)
  moreover have "run_on ?w0 w1" using fin_loop_run [of ?w0 fs 0] l by simp
  ultimately have "run_on w w1" by (rule run_on_trans)
  then have "run_on w (print a w1)" for a by (rule run_on_print)
  then show ?thesis using l by (simp add: fin_run_def)
qed

lemma man_run_on: "run_on w (snd (man_run fs w))"
proof -
  obtain r w1 where l: "man_loop fs (w, 0) = (r, w1)" by (cases "man_loop fs (w, 0)")
  have "run_on w w1" using man_loop_run [of w fs 0] l by simp
  then have "run_on w w1" "run_on w (print a w1)" for a by (simp_all add: run_on_print)
  then show ?thesis using l by (cases r) (simp_all add: man_run_def)
qed

lemma dm_run_on: "run_on w (dm_run pages w)"
proof -
  let ?w0 = "print rule60 (print ''Adding Dark Mode Support to All Pages'' (print rule60 w))"
  obtain w1 t m where l: "dm_page_loop pages (?w0, 0, 0) = (w1, t, m)"
    by (cases "dm_page_loop pages (?w0, 0, 0)")
  have "run_on w ?w0" by (intro run_on_print run_on_refl)
  moreover have "run_on ?w0 w1" using dm_page_loop_run [of ?w0 pages 0 0] l by simp
  ultimately have "run_on w w1" by (rule run_on_trans)
  then have "run_on w (print a (print b (print c w1)))" for a b c
    by (intro run_on_print; assumption)
  then show ?thesis using l by (simp add: dm_run_def)
qed

lemma run_on_not_read:
  "run_on w w' \<Longrightarrow> \<not> path_exists w p \<Longrightarrow> p \<notin> set (reads w) \<Longrightarrow> p \<notin> set (reads w')"
  by (auto simp: run_on_def)

lemma run_on_missing: "run_on w w' \<Longrightarrow> \<not> path_exists w p \<Longrightarrow> \<not> path_exists w' p"
  by (simp add: run_on_def)

lemma run_on_out: "run_on w w' \<Longrightarrow> l \<in> set (out w) \<Longrightarrow> l \<in> set (out w')"
  by (auto simp: run_on_def)

lemma tc_loop_warns:
  "p \<in> set fs \<Longrightarrow> \<not> path_exists w p \<Longrightarrow>
     (''[WARN] File not found: '' @ p) \<in> set (out (fst (tc_loop fs (w, n, k))))"
proof (induction fs arbitrary: w n k)
  case Nil
  then show ?case by simp
next
  case (Cons f fs)
  show ?case
  proof (cases "f = p")
    case True
    let ?w1 = "print (''[WARN] File not found: '' @ p) w"
    have "(''[WARN] File not found: '' @ p) \<in> set (out ?w1)" by simp
    with tc_loop_run [of ?w1 fs n k]
    have "(''[WARN] File not found: '' @ p) \<in> set (out (fst (tc_loop fs (?w1, n, k))))"
      by (rule run_on_out)
    with True Cons.prems show ?thesis by simp
  next
    case False
    with Cons.prems have mem: "p \<in> set fs" by simp
    show ?thesis
    proof (cases "path_exists w f")
      case False
      let ?w1 = "print (''[WARN] File not found: '' @ f) w"
      from Cons.prems have "\<not> path_exists ?w1 p" by simp
      from Cons.IH [OF mem this] False show ?thesis by simp
    next
      case True
      obtain r w1 where q: "tc_process_file f w = (r, w1)" by (cases "tc_process_file f w")
      with tc_process_step [OF True] have "step_on w f w1" by simp
      with Cons.prems have "\<not> path_exists w1 p" by (simp add: step_on_def)
      from Cons.IH [OF mem this] True q show ?thesis
        by (cases r) (simp_all add: str_bool_no_manual)
    qed
  qed
qed

lemma dm_file_loop_warns:
  "f \<in> set fs \<Longrightarrow> \<not> path_exists w (path_join dm_base_dir f) \<Longrightarrow>
   unbackslash (path_join dm_base_dir f) \<notin> dm_skip_files \<Longrightarrow>
     (''\<newline>[WARN] File not found: '' @ path_join dm_base_dir f)
       \<in> set (out (fst (dm_file_loop fs (w, t, m))))"
proof (induction fs arbitrary: w t m)
  case Nil
  then show ?case by simp
next
  case (Cons g fs)
  let ?p = "path_join dm_base_dir f"
  let ?q = "path_join dm_base_dir g"
  show ?case
  proof (cases "g = f")
    case True
    let ?w1 = "print (''\<newline>[WARN] File not found: '' @ ?p) w"
    have "(''\<newline>[WARN] File not found: '' @ ?p) \<in> set (out ?w1)" by simp
    with dm_file_loop_run [of ?w1 fs t m]
    have "(''\<newline>[WARN] File not found: '' @ ?p) \<in> set (out (fst (dm_file_loop fs (?w1, t, m))))"
      by (rule run_on_out)
    with True Cons.prems show ?thesis by (simp add: Let_def)
  next
    case False
    with Cons.prems have mem: "f \<in> set fs" by simp
    have ih: "\<not> path_exists w1 ?p \<Longrightarrow>
      (''\<newline>[WARN] File not found: '' @ ?p) \<in> set (out (fst (dm_file_loop fs (w1, a, b))))"
      for w1 a b using Cons.IH [OF mem _ Cons.prems(3)] by blast
    show ?thesis
    proof (cases "unbackslash ?q \<in> dm_skip_files")
      case True
      let ?w1 = "print (''\<newline>[SKIP] Skipping: '' @ ?q @ '' (already done)'') w"
      from Cons.prems have "\<not> path_exists ?w1 ?p" by simp
      from ih [OF this] True show ?thesis by (simp add: Let_def)
    next
      case False
      note ns = this
      show ?thesis
      proof (cases "path_exists w ?q")
        case False
        let ?w1 = "print (''\<newline>[WARN] File not found: '' @ ?q) w"
        from Cons.prems have "\<not> path_exists ?w1 ?p" by simp
        from ih [OF this] ns False show ?thesis by (simp add: Let_def)
      next
        case True
        obtain r w1 where q: "dm_process_file ?q w = (r, w1)" by (cases "dm_process_file ?q w")
        with dm_process_step [OF True] have "step_on w ?q w1" by simp
        with Cons.prems have "\<not> path_exists w1 ?p" by (simp add: step_on_def)
        from ih [OF this] ns True q show ?thesis by (cases r) (simp_all add: Let_def)
      qed
    qed
  qed
qed

lemma dm_page_loop_warns:
  "(category, file_list) \<in> set pages \<Longrightarrow> f \<in> set file_list \<Longrightarrow>
   \<not> path_exists w (path_join dm_base_dir f) \<Longrightarrow>
   unbackslash (path_join dm_base_dir f) \<notin> dm_skip_files \<Longrightarrow>
     (''\<newline>[WARN] File not found: '' @ path_join dm_base_dir f)
       \<in> set (out (fst (dm_page_loop pages (w, t, m))))"
proof (induction pages arbitrary: w t m)
  case Nil
  then show ?case by simp
next
  case (Cons pg pages)
  let ?p = "path_join dm_base_dir f"
  obtain cat fl where pg: "pg = (cat, fl)" by (cases pg)
  let ?w1 = "print rule60 (print (cat @ '' Pages'') (print (''\<newline>'' @ rule60) w))"
  obtain w2 t2 m2 where l: "dm_file_loop fl (?w1, t, m) = (w2, t2, m2)"
    by (cases "dm_file_loop fl (?w1, t, m)")
  have r2: "run_on ?w1 w2" using dm_file_loop_run [of ?w1 fl t m] l by simp
  from Cons.prems have m1: "\<not> path_exists ?w1 ?p" by simp
  show ?case
  proof (cases "pg = (category, file_list)")
    case True
    with pg have "fl = file_list" by simp
    with Cons.prems m1 dm_file_loop_warns [of f fl ?w1 t m] l
    have "(''\<newline>[WARN] File not found: '' @ ?p) \<in> set (out w2)" by simp
    with dm_page_loop_run [of w2 pages t2 m2]
    have "(''\<newline>[WARN] File not found: '' @ ?p) \<in> set (out (fst (dm_page_loop pages (w2, t2, m2))))"
      by (rule run_on_out)
    with pg l show ?thesis by simp
  next
    case False
    with Cons.prems have mem: "(category, file_list) \<in> set pages" by simp
    from r2 m1 have "\<not> path_exists w2 ?p" by (rule run_on_missing)
    from Cons.IH [OF mem Cons.prems(2) this Cons.prems(4)] pg l show ?thesis by simp
  qed
qed

text \<open>
  C4, as stated, fails for \<open>add_toggle_final.py\<close> and \<open>manual_toggle_add.py\<close>: where no
  file of their lists exists, the runs print no warning at all.
\<close>

theorem missing_path_no_warning:
  \<open>''client/src/pages/customer/MyReviews.tsx'' \<in> set fin_files
   \<and> ''client/src/pages/customer/MyReviews.tsx'' \<in> set files_to_fix
   \<and> \<not> path_exists empty_world ''client/src/pages/customer/MyReviews.tsx''
   \<and> out (fin_main empty_world) =
       [rule60, ''Final Pass: Adding DarkModeToggle'', rule60, ''\<newline>0 files modified'']
   \<and> out (snd (man_main empty_world)) = [''\<newline>0 files modified'']\<close>
  by code_simp

text \<open>
  C4, amended.  A path of the list that does not exist is passed over without being
  opened for reading, and the loop goes on with the remaining paths.
  \<open>add_dark_mode.py\<close> and \<open>add_toggle_component.py\<close> print a warning that names the
  path; \<open>add_toggle_final.py\<close> and \<open>manual_toggle_add.py\<close> print nothing for it.
\<close>

theorem missing_path_skipped:
  assumes "\<not> path_exists w p"
  shows \<open>tc_loop (p # rest) (w, n, k) =
           tc_loop rest (print (''[WARN] File not found: '' @ p) w, n, k)
     \<and> fin_loop (p # rest) (w, n) = fin_loop rest (w, n)
     \<and> man_loop (p # rest) (w, n) = man_loop rest (w, n)
     \<and> (p = path_join dm_base_dir f \<and> unbackslash p \<notin> dm_skip_files \<longrightarrow>
          dm_file_loop (f # rest) (w, n, k) =
            dm_file_loop rest (print (''\<newline>[WARN] File not found: '' @ p) w, n, k))
     \<and> (p \<notin> set (reads w) \<longrightarrow>
          p \<notin> set (reads (tc_run fs w)) \<and> p \<notin> set (reads (fin_run fs w))
          \<and> p \<notin> set (reads (snd (man_run fs w))) \<and> p \<notin> set (reads (dm_run pages w)))
     \<and> (p \<in> set fs \<longrightarrow> (''[WARN] File not found: '' @ p) \<in> set (out (tc_run fs w)))
     \<and> ((category, file_list) \<in> set pages \<and> f \<in> set file_list
          \<and> p = path_join dm_base_dir f \<and> unbackslash p \<notin> dm_skip_files \<longrightarrow>
          (''\<newline>[WARN] File not found: '' @ p) \<in> set (out (dm_run pages w)))\<close>
proof (intro conjI impI)
  show \<open>tc_loop (p # rest) (w, n, k) =
           tc_loop rest (print (''[WARN] File not found: '' @ p) w, n, k)\<close>
    using assms by simp
  show "fin_loop (p # rest) (w, n) = fin_loop rest (w, n)" using assms by simp
  show "man_loop (p # rest) (w, n) = man_loop rest (w, n)" using assms by simp
next
  assume "p = path_join dm_base_dir f \<and> unbackslash p \<notin> dm_skip_files"
  then have "p = path_join dm_base_dir f"
    and "unbackslash (path_join dm_base_dir f) \<notin> dm_skip_files" by blast+
  with assms show \<open>dm_file_loop (f # rest) (w, n, k) =
            dm_file_loop rest (print (''\<newline>[WARN] File not found: '' @ p) w, n, k)\<close>
    by (simp add: Let_def)
next
  assume r: "p \<notin> set (reads w)"
  show "p \<notin> set (reads (tc_run fs w))"
    using tc_run_on assms r by (rule run_on_not_read)
  show "p \<notin> set (reads (fin_run fs w))"
    using fin_run_on assms r by (rule run_on_not_read)
  show "p \<notin> set (reads (snd (man_run fs w)))"
    using man_run_on assms r by (rule run_on_not_read)
  show "p \<notin> set (reads (dm_run pages w))"
    using dm_run_on assms r by (rule run_on_not_read)
next
  assume mem: "p \<in> set fs"
  let ?w0 = "print rule60 (print ''Adding DarkModeToggle Component to Pages'' (print rule60 w))"
  obtain w1 a b where l: "tc_loop fs (?w0, 0, 0) = (w1, a, b)" by (cases "tc_loop fs (?w0, 0, 0)")
  from assms have "\<not> path_exists ?w0 p" by simp
  from tc_loop_warns [OF mem this, of 0 0] l
  have "(''[WARN] File not found: '' @ p) \<in> set (out w1)" by simp
  then show \<open>(''[WARN] File not found: '' @ p) \<in> set (out (tc_run fs w))\<close>
    using l by (simp add: tc_run_def Let_def)
next
  assume a: \<open>(category, file_list) \<in> set pages \<and> f \<in> set file_list
          \<and> p = path_join dm_base_dir f \<and> unbackslash p \<notin> dm_skip_files\<close>
  let ?w0 = "print rule60 (print ''Adding Dark Mode Support to All Pages'' (print rule60 w))"
  obtain w1 t m where l: "dm_page_loop pages (?w0, 0, 0) = (w1, t, m)"
    by (cases "dm_page_loop pages (?w0, 0, 0)")
  from a have a1: "(category, file_list) \<in> set pages" and a2: "f \<in> set file_list"
    and a3: "p = path_join dm_base_dir f"
    and a4: "unbackslash (path_join dm_base_dir f) \<notin> dm_skip_files" by blast+
  from assms a3 have "\<not> path_exists ?w0 (path_join dm_base_dir f)" by simp
  from dm_page_loop_warns [OF a1 a2 this a4, of 0 0] l a3
  have "(''\<newline>[WARN] File not found: '' @ p) \<in> set (out w1)" by simp
  then show \<open>(''\<newline>[WARN] File not found: '' @ p) \<in> set (out (dm_run pages w))\<close>
    using l by (simp add: dm_run_def)
qed

theorem missing_path_skipped_witness:
  \<open>\<not> path_exists empty_world ''client/src/pages/customer/Wishlist.tsx''
   \<and> fin_loop [''client/src/pages/customer/Wishlist.tsx''] (empty_world, 0) = (empty_world, 0)
   \<and> man_loop [''client/src/pages/customer/Wishlist.tsx''] (empty_world, 0) = (Inr 0, empty_world)
   \<and> ''client/src/pages/customer/Wishlist.tsx'' \<notin> set (reads (fin_main empty_world))
   \<and> ''client/src/pages/customer/Wishlist.tsx'' \<notin> set (reads (dm_main empty_world))
   \<and> ''[WARN] File not found: client/src/pages/customer/Wishlist.tsx''
        \<in> set (out (tc_main empty_world))
   \<and> ''\<newline>[WARN] File not found: client/src/pages/customer/Wishlist.tsx''
        \<in> set (out (dm_main empty_world))\<close>
proof -
  let ?p = \<open>''client/src/pages/customer/Wishlist.tsx''\<close>
  let ?f = \<open>''customer/Wishlist.tsx''\<close>
  let ?fl = \<open>[''customer/ProductBrowse.tsx'', ''customer/Wishlist.tsx'',
       ''customer/OrderHistory.tsx'', ''customer/NearbyStores.tsx'',
       ''customer/Checkout.tsx'', ''customer/MyReviews.tsx'',
       ''customer/TransactionHistory.tsx'']\<close>
  have e: "\<not> path_exists empty_world ?p" by (simp add: empty_world_def path_exists_def)
  have r: "?p \<notin> set (reads empty_world)" by (simp add: empty_world_def)
  have m: "?p \<in> set tc_files" by (simp add: tc_files_def)
  have j: "?p = path_join dm_base_dir ?f \<and> unbackslash ?p \<notin> dm_skip_files" by code_simp
  have g: "(''Customer'', ?fl) \<in> set dm_pages \<and> ?f \<in> set ?fl" by (simp add: dm_pages_def)
  note t = missing_path_skipped [OF e, of "[]" 0 0 ?f tc_files dm_pages "''Customer''" ?fl]
  note u = missing_path_skipped [OF e, of "[]" 0 0 ?f fin_files dm_pages "''Customer''" ?fl]
  from t have 1: "fin_loop [?p] (empty_world, 0) = (empty_world, 0)"
    and 2: "man_loop [?p] (empty_world, 0) = (Inr 0, empty_world)" by simp_all
  from u r have 3: "?p \<notin> set (reads (fin_main empty_world))"
    and 4: "?p \<notin> set (reads (dm_main empty_world))" by (simp_all add: fin_main_def dm_main_def)
  from t m have 5: \<open>(''[WARN] File not found: '' @ ?p) \<in> set (out (tc_main empty_world))\<close>
    by (simp add: tc_main_def)
  from t g j have 6: \<open>(''\<newline>[WARN] File not found: '' @ ?p) \<in> set (out (dm_main empty_world))\<close>
    unfolding dm_main_def by blast
  from e 1 2 3 4 5 6 show ?thesis by simp
qed

section \<open>Errors of a single file\<close>

text \<open>
  C1.  Every per-file error should be caught so that the remaining files are processed.
  In \<open>broken_world\<close> the run of \<open>manual_toggle_add.py\<close> ends with the exception of the
  first file: it prints nothing, and the second file, which \<open>add_toggle\<close> would patch, is
  never opened.  The run of \<open>add_toggle_final.py\<close> in the same world prints the error
  and goes on to the second file.
\<close>

theorem manual_run_aborts:
  \<open>fst (man_main broken_world) = Some (UnicodeDecodeError ''invalid start byte'')
   \<and> reads (snd (man_main broken_world)) = [''client/src/pages/customer/MyReviews.tsx'']
   \<and> writes (snd (man_main broken_world)) = []
   \<and> out (snd (man_main broken_world)) = []
   \<and> path_exists broken_world ''client/src/pages/retailer/B2BCheckout.tsx''
   \<and> man_transform ''<Link to="/retailer/dashboard">Back</Link>''
       \<noteq> ''<Link to="/retailer/dashboard">Back</Link>''
   \<and> reads (fin_main broken_world) =
       [''client/src/pages/customer/MyReviews.tsx'',
        ''client/src/pages/retailer/B2BCheckout.tsx'']
   \<and> out (fin_main broken_world) =
       [rule60, ''Final Pass: Adding DarkModeToggle'', rule60,
        ''[ERROR] client/src/pages/customer/MyReviews.tsx: invalid start byte'',
        ''\<newline>0 files modified'']\<close>
  by code_simp

text \<open>
  The loops of the three scripts whose \<open>process_file\<close> has a \<open>try\<close> open every existing
  path of their list, whatever happens to the files before it.
\<close>

lemma run_on_read: "run_on w w' \<Longrightarrow> p \<in> set (reads w) \<Longrightarrow> p \<in> set (reads w')"
  by (auto simp: run_on_def)

lemma fin_loop_reads_all:
  "p \<in> set fs \<Longrightarrow> path_exists w p \<Longrightarrow> p \<in> set (reads (fst (fin_loop fs (w, n))))"
proof (induction fs arbitrary: w n)
  case Nil
  then show ?case by simp
next
  case (Cons f fs)
  show ?case
  proof (cases "path_exists w f")
    case False
    with Cons.prems have "p \<in> set fs" by auto
    from Cons.IH [OF this Cons.prems(2)] False show ?thesis by simp
  next
    case True
    obtain r w1 where q: "fin_process_file f w = (r, w1)" by (cases "fin_process_file f w")
    with fin_process_step [OF True] have s: "step_on w f w1" by simp
    have "p \<in> set (reads (fst (fin_loop fs (w1, k))))" for k
    proof (cases "f = p")
      case True
      with s have "p \<in> set (reads w1)" by (simp add: step_on_def)
      with fin_loop_run [of w1 fs k] show ?thesis by (rule run_on_read)
    next
      case False
      with Cons.prems have "p \<in> set fs" by simp
      moreover from s Cons.prems have "path_exists w1 p" by (simp add: step_on_def)
      ultimately show ?thesis by (rule Cons.IH)
    qed
    with True q show ?thesis by (cases r) simp_all
  qed
qed

lemma tc_loop_reads_all:
  "p \<in> set fs \<Longrightarrow> path_exists w p \<Longrightarrow> p \<in> set (reads (fst (tc_loop fs (w, n, k))))"
proof (induction fs arbitrary: w n k)
  case Nil
  then show ?case by simp
next
  case (Cons f fs)
  show ?case
  proof (cases "path_exists w f")
    case False
    with Cons.prems have "p \<in> set fs" by auto
    moreover from Cons.prems have "path_exists (print (''[WARN] File not found: '' @ f) w) p"
      by simp
    ultimately have "p \<in> set (reads (fst (tc_loop fs
        (print (''[WARN] File not found: '' @ f) w, n, k))))" by (rule Cons.IH)
    with False show ?thesis by simp
  next
    case True
    obtain r w1 where q: "tc_process_file f w = (r, w1)" by (cases "tc_process_file f w")
    with tc_process_step [OF True] have s: "step_on w f w1" by simp
    have "p \<in> set (reads (fst (tc_loop fs (w1, a, b))))" for a b
    proof (cases "f = p")
      case True
      with s have "p \<in> set (reads w1)" by (simp add: step_on_def)
      with tc_loop_run [of w1 fs a b] show ?thesis by (rule run_on_read)
    next
      case False
      with Cons.prems have "p \<in> set fs" by simp
      moreover from s Cons.prems have "path_exists w1 p" by (simp add: step_on_def)
      ultimately show ?thesis by (rule Cons.IH)
    qed
    with True q show ?thesis by (cases r) (simp_all add: str_bool_no_manual)
  qed
qed

section \<open>Capture groups\<close>

lemma ms_Seq_iff:
  "(r, c') \<in> set (ms (Seq a b) s c) \<longleftrightarrow>
     (\<exists>s1 c1. (s1, c1) \<in> set (ms a s c) \<and> (r, c') \<in> set (ms b s1 c1))"
  by auto

lemma ms_Grp_iff:
  "(r, c') \<in> set (ms (Grp n a) s c) \<longleftrightarrow>
     (\<exists>c1. (r, c1) \<in> set (ms a s c) \<and> c' = c1(n \<mapsto> (s, r)))"
  by auto

text \<open>A pattern changes the captures of its own groups only.\<close>

lemma ms_caps_other:
  "(r, c') \<in> set (ms a s c) \<Longrightarrow> n \<notin> grps a \<Longrightarrow> c' n = c n"
proof (induction a arbitrary: s c r c')
  case (Lit l)
  then show ?case by (auto split: option.splits)
next
  case (One k)
  then show ?case by (auto split: list.splits if_splits)
next
  case (Star k)
  then show ?case by auto
next
  case (LStar k)
  then show ?case by auto
next
  case (Plus k)
  then show ?case by (auto split: list.splits if_splits)
next
  case (Seq a b)
  from Seq.prems(1) obtain s1 c1 where
    1: "(s1, c1) \<in> set (ms a s c)" and 2: "(r, c') \<in> set (ms b s1 c1)"
    unfolding ms_Seq_iff by blast
  from Seq.prems(2) have "n \<notin> grps a" "n \<notin> grps b" by simp_all
  with Seq.IH(1) [OF 1] Seq.IH(2) [OF 2] show ?case by simp
next
  case (Grp k a)
  from Grp.prems(1) obtain c1 where
    1: "(r, c1) \<in> set (ms a s c)" and 2: "c' = c1(k \<mapsto> (s, r))"
    unfolding ms_Grp_iff by blast
  from Grp.prems(2) have "n \<noteq> k" "n \<notin> grps a" by simp_all
  with Grp.IH [OF 1] 2 show ?case by simp
next
  case (Opt a)
  then show ?case by auto
next
  case (NLook a)
  then show ?case by (auto split: list.splits)
qed

text \<open>A group at the head of a sequence, and a group at its end.\<close>

lemma ms_head_group:
  assumes "(e, c) \<in> set (ms (Seq (Grp n A) R) a c0)" and "n \<notin> grps R"
  shows "\<exists>s1 c1. (s1, c1) \<in> set (ms A a c0) \<and> (e, c) \<in> set (ms R s1 (c1(n \<mapsto> (a, s1))))
           \<and> c n = Some (a, s1)"
proof -
  from assms(1) obtain s1 c1 where
    1: "(s1, c1) \<in> set (ms A a c0)" and 2: "(e, c) \<in> set (ms R s1 (c1(n \<mapsto> (a, s1))))"
    unfolding ms_Seq_iff ms_Grp_iff by blast
  from ms_caps_other [OF 2 assms(2)] have "c n = Some (a, s1)" by simp
  with 1 2 show ?thesis by blast
qed

lemma ms_last_group:
  assumes "(e, c) \<in> set (ms (Grp n A) s c0)"
  shows "c n = Some (s, e) \<and> (\<exists>c1. (e, c1) \<in> set (ms A s c0))"
  using assms unfolding ms_Grp_iff by auto

text \<open>What a repetition of a class passes over.\<close>

lemma ms_Star_class:
  "(r, c') \<in> set (ms (Star k) s c) \<Longrightarrow> s = u @ r \<Longrightarrow> \<forall>x\<in>set u. cmem k x"
  by (auto simp: star_greedy_set)

lemma ms_LStar_class:
  "(r, c') \<in> set (ms (LStar k) s c) \<Longrightarrow> s = u @ r \<Longrightarrow> \<forall>x\<in>set u. cmem k x"
  by (auto simp: star_lazy_set star_greedy_set)

lemma ms_Plus_class:
  "(r, c') \<in> set (ms (Plus k) s c) \<Longrightarrow> s = u @ r \<Longrightarrow> \<forall>x\<in>set u. cmem k x"
  by (cases s) (auto simp: star_greedy_set Cons_eq_append_conv split: if_splits)

text \<open>Positions and slices of a text with a known suffix.\<close>

lemma slice_mid:
  "slice (pre @ g @ rest) (length (pre @ g @ rest) - length (g @ rest))
     (length (pre @ g @ rest) - length rest) = g"
  by (simp add: slice_def)

section \<open>The parts of a match\<close>

lemma re_search_parts:
  assumes "re_search r content = Some m"
  shows "\<exists>pre a e c. content = pre @ a \<and> m = mk_match content (a, e, c)
           \<and> (e, c) \<in> set (ms r a Map.empty)
           \<and> m_start m = length pre \<and> m_end m = length content - length e"
proof -
  from assms obtain t where t: "search r content = Some t" "m = mk_match content t"
    by (auto simp: re_search_def)
  obtain a e c where tt: "t = (a, e, c)" by (cases t)
  from search_Some [OF t(1) [unfolded tt]] obtain rest where
    s: "suffix a content" and h: "ms r a Map.empty = (e, c) # rest" by blast
  from s obtain pre where p: "content = pre @ a" by (auto simp: suffix_def)
  from h have i: "(e, c) \<in> set (ms r a Map.empty)" by simp
  have st: "m_start m = length pre" and en: "m_end m = length content - length e"
    using p t(2) tt by (simp_all add: mk_match_def)
  have mm: "m = mk_match content (a, e, c)" using t(2) tt by simp
  from p mm i st en show ?thesis by blast
qed

lemma group_text:
  assumes "m = mk_match content (a, e, c)" and "c n = Some (x, y)"
    and "content = p1 @ x" and "x = g @ y"
  shows "group content m n = Some g \<and> m_span m n = Some (length p1, length p1 + length g)"
proof -
  from assms have "m_span m n = Some (length content - length x, length content - length y)"
    by (simp add: mk_match_def)
  moreover from assms have "content = p1 @ g @ y" by simp
  ultimately show ?thesis using slice_mid [of p1 g y] assms by (simp add: group_def)
qed

lemma three_groups:
  assumes "re_search (Seq (Grp 1 A) (Seq (Grp 2 B) (Grp 3 C))) content = Some m"
    and "1 \<notin> grps B" and "1 \<notin> grps C" and "2 \<notin> grps C"
  shows "\<exists>pre g1 g2 g3 post.
           content = pre @ g1 @ g2 @ g3 @ post
           \<and> m_start m = length pre \<and> m_end m = length (pre @ g1 @ g2 @ g3)
           \<and> group content m 1 = Some g1 \<and> group content m 2 = Some g2
           \<and> group content m 3 = Some g3
           \<and> m_span m 2 = Some (length (pre @ g1), length (pre @ g1 @ g2))
           \<and> m_span m 3 = Some (length (pre @ g1 @ g2), length (pre @ g1 @ g2 @ g3))
           \<and> (\<exists>c c'. (g2 @ g3 @ post, c') \<in> set (ms A (g1 @ g2 @ g3 @ post) c))
           \<and> (\<exists>c c'. (g3 @ post, c') \<in> set (ms B (g2 @ g3 @ post) c))
           \<and> (\<exists>c c'. (post, c') \<in> set (ms C (g3 @ post) c))"
proof -
  from re_search_parts [OF assms(1)] obtain pre a e c where
    p: "content = pre @ a" and m: "m = mk_match content (a, e, c)"
    and in0: "(e, c) \<in> set (ms (Seq (Grp 1 A) (Seq (Grp 2 B) (Grp 3 C))) a Map.empty)"
    and st: "m_start m = length pre" and en: "m_end m = length content - length e" by blast
  have n1: "1 \<notin> grps (Seq (Grp 2 B) (Grp 3 C))" using assms(2,3) by simp
  from ms_head_group [OF in0 n1] obtain s1 c1 where
    a1: "(s1, c1) \<in> set (ms A a Map.empty)"
    and r1: "(e, c) \<in> set (ms (Seq (Grp 2 B) (Grp 3 C)) s1 (c1(1 \<mapsto> (a, s1))))"
    and k1: "c 1 = Some (a, s1)" by blast
  have n2: "2 \<notin> grps (Grp 3 C)" using assms(4) by simp
  from ms_head_group [OF r1 n2] obtain s2 c2 where
    a2: "(s2, c2) \<in> set (ms B s1 (c1(1 \<mapsto> (a, s1))))"
    and r2: "(e, c) \<in> set (ms (Grp 3 C) s2 (c2(2 \<mapsto> (s1, s2))))"
    and k2: "c 2 = Some (s1, s2)" by blast
  from ms_last_group [OF r2] obtain c3 where
    k3: "c 3 = Some (s2, e)" and a3: "(e, c3) \<in> set (ms C s2 (c2(2 \<mapsto> (s1, s2))))" by blast
  from ms_suffix [OF a1] obtain g1 where g1: "a = g1 @ s1" by (auto simp: suffix_def)
  from ms_suffix [OF a2] obtain g2 where g2: "s1 = g2 @ s2" by (auto simp: suffix_def)
  from ms_suffix [OF a3] obtain g3 where g3: "s2 = g3 @ e" by (auto simp: suffix_def)
  have c0: "content = pre @ g1 @ g2 @ g3 @ e" using p g1 g2 g3 by simp
  have t1: "group content m 1 = Some g1" using group_text [OF m k1 p g1] by simp
  have p2: "content = (pre @ g1) @ s1" using p g1 by simp
  have t2: "group content m 2 = Some g2 \<and> m_span m 2 = Some (length (pre @ g1), length (pre @ g1) + length g2)"
    using group_text [OF m k2 p2 g2] by simp
  have p3: "content = (pre @ g1 @ g2) @ s2" using p g1 g2 by simp
  have t3: "group content m 3 = Some g3 \<and> m_span m 3 = Some (length (pre @ g1 @ g2), length (pre @ g1 @ g2) + length g3)"
    using group_text [OF m k3 p3 g3] by simp
  have e1: "\<exists>c c'. (g2 @ g3 @ e, c') \<in> set (ms A (g1 @ g2 @ g3 @ e) c)"
    using a1 g1 g2 g3 by auto
  have e2: "\<exists>c c'. (g3 @ e, c') \<in> set (ms B (g2 @ g3 @ e) c)"
    using a2 g2 g3 by auto
  have e3: "\<exists>c c'. (e, c') \<in> set (ms C (g3 @ e) c)"
    using a3 g3 by auto
  have en': "m_end m = length (pre @ g1 @ g2 @ g3)" using en c0 by simp
  show ?thesis
    apply (rule exI [of _ pre], rule exI [of _ g1], rule exI [of _ g2], rule exI [of _ g3],
           rule exI [of _ e])
    using c0 st en' t1 t2 t3 e1 e2 e3 by simp
qed

lemma head_group:
  assumes "re_search (Seq (Grp 1 A) R) content = Some m" and "1 \<notin> grps R"
  shows "\<exists>pre g1 rest. content = pre @ g1 @ rest \<and> m_start m = length pre
           \<and> group content m 1 = Some g1
           \<and> (\<exists>c c'. (rest, c') \<in> set (ms A (g1 @ rest) c))"
proof -
  from re_search_parts [OF assms(1)] obtain pre a e c where
    p: "content = pre @ a" and m: "m = mk_match content (a, e, c)"
    and in0: "(e, c) \<in> set (ms (Seq (Grp 1 A) R) a Map.empty)"
    and st: "m_start m = length pre" by blast
  from ms_head_group [OF in0 assms(2)] obtain s1 c1 where
    a1: "(s1, c1) \<in> set (ms A a Map.empty)" and k1: "c 1 = Some (a, s1)" by blast
  from ms_suffix [OF a1] obtain g1 where g1: "a = g1 @ s1" by (auto simp: suffix_def)
  have t1: "group content m 1 = Some g1" using group_text [OF m k1 p g1] by simp
  have "\<exists>c c'. (s1, c') \<in> set (ms A (g1 @ s1) c)" using a1 g1 by auto
  with p g1 st t1 show ?thesis by auto
qed

lemma notification_parts:
  assumes "re_search notification_pattern content = Some m"
  shows "\<exists>pre g1 x g3 post.
           content = pre @ g1 @ x @ g3 @ post
           \<and> m_start m = length pre \<and> m_end m = length (pre @ g1 @ x @ g3)
           \<and> group content m 1 = Some g1 \<and> (\<forall>c\<in>set g1. is_space c)
           \<and> m_span m 3 = Some (length (pre @ g1 @ x), length (pre @ g1 @ x @ g3))"
proof -
  let ?X = \<open>Opt (Grp 2 (cat [Lit ''/*'', LStar DotAll, Lit ''Notification Bell'', LStar DotAll,
                           Lit ''*/'', Star Space]))\<close>
  let ?L = \<open>Grp 3 (Lit ''<NotificationBell'')\<close>
  have pat: "notification_pattern = Seq (Grp 1 (Star Space)) (Seq ?X ?L)"
    by (simp add: notification_pattern_def)
  from re_search_parts [OF assms(1)] obtain pre a e c where
    p: "content = pre @ a" and m: "m = mk_match content (a, e, c)"
    and in0: "(e, c) \<in> set (ms (Seq (Grp 1 (Star Space)) (Seq ?X ?L)) a Map.empty)"
    and st: "m_start m = length pre" and en: "m_end m = length content - length e"
    unfolding pat by blast
  have n1: "1 \<notin> grps (Seq ?X ?L)" by simp
  from ms_head_group [OF in0 n1] obtain s1 c1 where
    a1: "(s1, c1) \<in> set (ms (Star Space) a Map.empty)"
    and r1: "(e, c) \<in> set (ms (Seq ?X ?L) s1 (c1(1 \<mapsto> (a, s1))))"
    and k1: "c 1 = Some (a, s1)" by blast
  from r1 obtain s2 c2 where
    a2: "(s2, c2) \<in> set (ms ?X s1 (c1(1 \<mapsto> (a, s1))))"
    and r2: "(e, c) \<in> set (ms ?L s2 c2)"
    unfolding ms_Seq_iff by blast
  from ms_last_group [OF r2] obtain c3 where
    k3: "c 3 = Some (s2, e)" and a3: "(e, c3) \<in> set (ms (Lit ''<NotificationBell'') s2 c2)"
    by blast
  from ms_suffix [OF a1] obtain g1 where g1: "a = g1 @ s1" by (auto simp: suffix_def)
  from ms_suffix [OF a2] obtain x where x: "s1 = x @ s2" by (auto simp: suffix_def)
  from ms_suffix [OF a3] obtain g3 where g3: "s2 = g3 @ e" by (auto simp: suffix_def)
  have c0: "content = pre @ g1 @ x @ g3 @ e" using p g1 x g3 by simp
  have t1: "group content m 1 = Some g1" using group_text [OF m k1 p g1] by simp
  have sp: "\<forall>c\<in>set g1. is_space c" using ms_Star_class [OF a1 g1] by simp
  have p3: "content = (pre @ g1 @ x) @ s2" using p g1 x by simp
  have t3: "m_span m 3 = Some (length (pre @ g1 @ x), length (pre @ g1 @ x) + length g3)"
    using group_text [OF m k3 p3 g3] by simp
  have en': "m_end m = length (pre @ g1 @ x @ g3)" using en c0 by simp
  show ?thesis
    apply (rule exI [of _ pre], rule exI [of _ g1], rule exI [of _ x], rule exI [of _ g3],
           rule exI [of _ e])
    using c0 st en' t1 sp t3 by simp
qed

lemma container_parts:
  assumes "re_search (container_pattern l) content = Some m"
  shows "\<exists>pre g1 g2 post.
           content = pre @ g1 @ g2 @ l @ post
           \<and> m_start m = length pre \<and> m_end m = length (pre @ g1 @ g2 @ l)
           \<and> group content m 2 = Some g2 \<and> CHR ''<'' \<notin> set g2
           \<and> m_span m 2 = Some (length (pre @ g1), length (pre @ g1 @ g2))"
proof -
  let ?A = \<open>cat [Lit ''<div'', LStar (NoneOf ''>''), Lit ''className="'',
                      Star (NoneOf ''"''), Lit ''flex'', Star (NoneOf ''"''), Lit ''"'',
                      Star (NoneOf ''>''), Lit ''>'']\<close>
  let ?B = \<open>LStar (NoneOf ''<'')\<close>
  have pat: "container_pattern l = Seq (Grp 1 ?A) (Seq (Grp 2 ?B) (Lit l))"
    by (simp add: container_pattern_def)
  from re_search_parts [OF assms(1)] obtain pre a e c where
    p: "content = pre @ a" and m: "m = mk_match content (a, e, c)"
    and in0: "(e, c) \<in> set (ms (Seq (Grp 1 ?A) (Seq (Grp 2 ?B) (Lit l))) a Map.empty)"
    and st: "m_start m = length pre" and en: "m_end m = length content - length e"
    unfolding pat by blast
  have n1: "1 \<notin> grps (Seq (Grp 2 ?B) (Lit l))" by simp
  from ms_head_group [OF in0 n1] obtain s1 c1 where
    a1: "(s1, c1) \<in> set (ms ?A a Map.empty)"
    and r1: "(e, c) \<in> set (ms (Seq (Grp 2 ?B) (Lit l)) s1 (c1(1 \<mapsto> (a, s1))))" by blast
  have n2: "2 \<notin> grps (Lit l)" by simp
  from ms_head_group [OF r1 n2] obtain s2 c2 where
    a2: "(s2, c2) \<in> set (ms ?B s1 (c1(1 \<mapsto> (a, s1))))"
    and r2: "(e, c) \<in> set (ms (Lit l) s2 (c2(2 \<mapsto> (s1, s2))))"
    and k2: "c 2 = Some (s1, s2)" by blast
  from r2 have l: "s2 = l @ e" by (auto split: option.splits simp: lit_match_iff lit_match_iff2)
  from ms_suffix [OF a1] obtain g1 where g1: "a = g1 @ s1" by (auto simp: suffix_def)
  from ms_suffix [OF a2] obtain g2 where g2: "s1 = g2 @ s2" by (auto simp: suffix_def)
  have c0: "content = pre @ g1 @ g2 @ l @ e" using p g1 g2 l by simp
  have p2: "content = (pre @ g1) @ s1" using p g1 by simp
  have t2: "group content m 2 = Some g2
            \<and> m_span m 2 = Some (length (pre @ g1), length (pre @ g1) + length g2)"
    using group_text [OF m k2 p2 g2] by simp
  have nl: "CHR ''<'' \<notin> set g2" using ms_LStar_class [OF a2 g2] by auto
  have en': "m_end m = length (pre @ g1 @ g2 @ l)" using en c0 by simp
  show ?thesis
    apply (rule exI [of _ pre], rule exI [of _ g1], rule exI [of _ g2], rule exI [of _ e])
    using c0 st en' t2 nl by simp
qed

section \<open>Insertions\<close>

lemma inserted_atI:
  assumes "content = pre @ post" and "c' = pre @ ins @ post"
  shows "inserted_at content c' (length pre) \<and> inserted_text content c' (length pre) = ins"
  using assms by (simp add: inserted_at_def inserted_text_def slice_def)

lemma toggle_insertedI:
  assumes "re_search pat content = Some m"
    and "content = pre @ post" and "c' = pre @ ins @ post"
    and "occurrences toggle_tag ins = 1"
    and "m_start m \<le> length pre" and "length pre \<le> m_end m"
  shows "toggle_inserted pat content c'"
proof -
  from inserted_atI [OF assms(2,3)] assms(4)
  have "inserted_at content c' (length pre)
        \<and> occurrences toggle_tag (inserted_text content c' (length pre)) = 1" by simp
  moreover from assms(5,6) have "length pre \<in> {m_start m..m_end m}" by simp
  ultimately show ?thesis using assms(1) unfolding toggle_inserted_def by auto
qed

lemma re_search_bounds:
  assumes "re_search r content = Some m"
  shows "m_start m \<le> m_end m \<and> m_end m \<le> length content"
proof -
  from re_search_parts [OF assms] obtain pre a e c where
    p: "content = pre @ a" and i: "(e, c) \<in> set (ms r a Map.empty)"
    and st: "m_start m = length pre" and en: "m_end m = length content - length e" by blast
  from ms_suffix [OF i] have "length e \<le> length a" by (rule suffix_length_le)
  with p st en show ?thesis by simp
qed

section \<open>Occurrences of the toggle\<close>

lemma occ_skip:
  "CHR ''<'' \<notin> set u \<Longrightarrow> occurrences toggle_tag (u @ v) = occurrences toggle_tag v"
  by (induction u) (auto simp: toggle_tag_def)

lemma occ_none: "CHR ''<'' \<notin> set u \<Longrightarrow> occurrences toggle_tag u = 0"
  using occ_skip [of u "[]"] by (simp add: toggle_tag_def)

lemma occ_head: "occurrences toggle_tag (toggle_tag @ v) = Suc (occurrences toggle_tag v)"
proof -
  have "occurrences toggle_tag (toggle_tag @ v)
        = Suc (occurrences toggle_tag (''DarkModeToggle />'' @ v))"
    by (simp add: toggle_tag_def)
  also have "occurrences toggle_tag (''DarkModeToggle />'' @ v) = occurrences toggle_tag v"
    by (rule occ_skip) simp
  finally show ?thesis .
qed

lemma space_not_lt: "\<forall>x\<in>set u. is_space x \<Longrightarrow> CHR ''<'' \<notin> set u"
  by (auto simp: is_space_def)

lemma strip_spaces: "\<forall>x\<in>set u. is_space x \<Longrightarrow> strip u = []"
proof -
  assume "\<forall>x\<in>set u. is_space x"
  then have d: "dropWhile is_space u = []" by simp
  show ?thesis unfolding strip_def d by simp
qed

lemma fstr_no_lt:
  "g = None \<or> (\<exists>t. g = Some t \<and> CHR ''<'' \<notin> set t) \<Longrightarrow> CHR ''<'' \<notin> set (fstr g)"
  by auto

lemma occ_toggle_html: "occurrences toggle_tag toggle_html = 1"
  by code_simp

section \<open>The toggle is inserted once, at the anchor\<close>

lemmas occ_skip_lit = occ_skip [unfolded toggle_tag_def]
lemmas occ_none_lit = occ_none [unfolded toggle_tag_def]

lemma auth_inserts:
  assumes "re_search auth_pattern content = Some m"
  shows "\<exists>c'. add_toggle_to_auth_page content = (c', True)
              \<and> toggle_inserted auth_pattern content c'"
proof -
  let ?c = "take (m_end m) content @ toggle_html @ drop (m_end m) content"
  from re_search_bounds [OF assms] have b: "m_start m \<le> m_end m" "m_end m \<le> length content"
    by simp_all
  have r: "add_toggle_to_auth_page content = (?c, True)"
    using assms by (simp add: add_toggle_to_auth_page_def Let_def)
  have "toggle_inserted auth_pattern content ?c"
  proof (rule toggle_insertedI [OF assms])
    show "content = take (m_end m) content @ drop (m_end m) content" by simp
    show "?c = take (m_end m) content @ toggle_html @ drop (m_end m) content" by simp
    show "occurrences toggle_tag toggle_html = 1" by (rule occ_toggle_html)
    show "m_start m \<le> length (take (m_end m) content)" using b by simp
    show "length (take (m_end m) content) \<le> m_end m" by simp
  qed
  with r show ?thesis by blast
qed

lemma std4_inserts:
  assumes "re_search std_pattern4 content = Some m"
  shows "\<exists>c'. std_apply4 content m = Inr (c', True)
              \<and> toggle_inserted std_pattern4 content c'"
proof -
  let ?ins = \<open>''\<newline>              <DarkModeToggle />\<newline>              ''\<close>
  let ?c = "take (m_end m) content @ ?ins @ drop (m_end m) content"
  from re_search_bounds [OF assms] have b: "m_start m \<le> m_end m" "m_end m \<le> length content"
    by simp_all
  have r: "std_apply4 content m = Inr (?c, True)"
    by (simp add: std_apply4_def Let_def)
  have "toggle_inserted std_pattern4 content ?c"
  proof (rule toggle_insertedI [OF assms])
    show "content = take (m_end m) content @ drop (m_end m) content" by simp
    show "?c = take (m_end m) content @ ?ins @ drop (m_end m) content" by simp
    show "occurrences toggle_tag ?ins = 1" by code_simp
    show "m_start m \<le> length (take (m_end m) content)" using b by simp
    show "length (take (m_end m) content) \<le> m_end m" by simp
  qed
  with r show ?thesis by blast
qed

lemma std1_inserts:
  assumes "re_search std_pattern1 content = Some m"
  shows "\<exists>c'. std_apply1 content m = Inr (c', True)
              \<and> toggle_inserted std_pattern1 content c'"
proof -
  have pat: \<open>std_pattern1 = Seq (Grp 1 (Plus Space)) (Grp 2 (Lit ''/* Notification Bell */''))\<close>
    by (simp add: std_pattern1_def)
  have "1 \<notin> grps (Grp 2 (Lit ''/* Notification Bell */''))" by simp
  from head_group [OF assms [unfolded pat] this] obtain pre g1 rest c c' where
    c0: "content = pre @ g1 @ rest" and st: "m_start m = length pre"
    and t1: "group content m 1 = Some g1"
    and a1: "(rest, c') \<in> set (ms (Plus Space) (g1 @ rest) c)" by blast
  from ms_Plus_class [OF a1] have "\<forall>x\<in>set g1. is_space x" by simp
  then have nl: "CHR ''<'' \<notin> set g1" by (rule space_not_lt)
  let ?ins = \<open>g1 @ ''{/* Dark Mode Toggle */}\<newline>'' @ g1 @ ''<DarkModeToggle />\<newline>\<newline>'' @ g1\<close>
  let ?c = "pre @ ?ins @ (g1 @ rest)"
  have r: "std_apply1 content m = Inr (?c, True)"
    using c0 st t1 by (simp add: std_apply1_def Let_def)
  from re_search_bounds [OF assms] st have b: "length pre \<le> m_end m" by simp
  have o: "occurrences toggle_tag ?ins = 1"
    using nl by (simp add: toggle_tag_def occ_skip_lit occ_none_lit)
  have "toggle_inserted std_pattern1 content ?c"
    by (rule toggle_insertedI [OF assms c0 _ o]) (use st b in simp_all)
  with r show ?thesis by blast
qed

lemma std2_inserts:
  assumes "re_search std_pattern2 content = Some m"
  shows "\<exists>c'. std_apply2 content m = Inr (c', True)
              \<and> toggle_inserted std_pattern2 content c'"
proof -
  have "\<exists>A. std_pattern2 =
          Seq (Grp 1 A) (Seq (Grp 2 (Star Space)) (Grp 3 (Lit ''<NotificationBell'')))"
    by (simp add: std_pattern2_def)
  then obtain A where pat: "std_pattern2 =
          Seq (Grp 1 A) (Seq (Grp 2 (Star Space)) (Grp 3 (Lit ''<NotificationBell'')))" ..
  have "\<exists>pre g1 g2 g3 post.
           content = pre @ g1 @ g2 @ g3 @ post
           \<and> m_start m = length pre \<and> m_end m = length (pre @ g1 @ g2 @ g3)
           \<and> group content m 1 = Some g1 \<and> group content m 2 = Some g2
           \<and> group content m 3 = Some g3
           \<and> m_span m 2 = Some (length (pre @ g1), length (pre @ g1 @ g2))
           \<and> m_span m 3 = Some (length (pre @ g1 @ g2), length (pre @ g1 @ g2 @ g3))
           \<and> (\<exists>c c'. (g2 @ g3 @ post, c') \<in> set (ms A (g1 @ g2 @ g3 @ post) c))
           \<and> (\<exists>c c'. (g3 @ post, c') \<in> set (ms (Star Space) (g2 @ g3 @ post) c))
           \<and> (\<exists>c c'. (post, c') \<in> set (ms (Lit ''<NotificationBell'') (g3 @ post) c))"
    by (rule three_groups [OF assms [unfolded pat]]) simp_all
  then obtain pre g1 g2 g3 post c c' where
    c0: "content = pre @ g1 @ g2 @ g3 @ post"
    and st: "m_start m = length pre" and en: "m_end m = length (pre @ g1 @ g2 @ g3)"
    and t1: "group content m 1 = Some g1" and t2: "group content m 2 = Some g2"
    and t3: "group content m 3 = Some g3"
    and a2: "(g3 @ post, c') \<in> set (ms (Star Space) (g2 @ g3 @ post) c)" by blast
  from ms_Star_class [OF a2] have sp: "\<forall>x\<in>set g2. is_space x" by simp
  then have nl: "CHR ''<'' \<notin> set g2" by (rule space_not_lt)
  from sp have ss: "strip g2 = []" by (rule strip_spaces)
  let ?ins = \<open>''<DarkModeToggle />'' @ g2\<close>
  let ?c = "(pre @ g1 @ g2) @ ?ins @ (g3 @ post)"
  have r: "std_apply2 content m = Inr (?c, True)"
    using c0 st en t1 t2 t3 ss by (simp add: std_apply2_def Let_def)
  have o: "occurrences toggle_tag ?ins = 1"
    using nl by (simp add: toggle_tag_def occ_none_lit)
  have c0': "content = (pre @ g1 @ g2) @ (g3 @ post)" using c0 by simp
  have "toggle_inserted std_pattern2 content ?c"
    by (rule toggle_insertedI [OF assms c0' _ o]) (use st en in simp_all)
  with r show ?thesis by blast
qed

lemma std3_inserts:
  assumes "re_search std_pattern3 content = Some m"
  shows "\<exists>c'. std_apply3 content m = Inr (c', True)
              \<and> toggle_inserted std_pattern3 content c'"
proof -
  have "\<exists>A C. std_pattern3 = Seq (Grp 1 A) (Seq (Grp 2 (LStar (NoneOf ''<''))) (Grp 3 C))
          \<and> grps C = {}"
    by (simp add: std_pattern3_def)
  then obtain A C where pat: "std_pattern3 =
          Seq (Grp 1 A) (Seq (Grp 2 (LStar (NoneOf ''<''))) (Grp 3 C))"
    and gc: "grps C = {}" by blast
  have "\<exists>pre g1 g2 g3 post.
           content = pre @ g1 @ g2 @ g3 @ post
           \<and> m_start m = length pre \<and> m_end m = length (pre @ g1 @ g2 @ g3)
           \<and> group content m 1 = Some g1 \<and> group content m 2 = Some g2
           \<and> group content m 3 = Some g3
           \<and> m_span m 2 = Some (length (pre @ g1), length (pre @ g1 @ g2))
           \<and> m_span m 3 = Some (length (pre @ g1 @ g2), length (pre @ g1 @ g2 @ g3))
           \<and> (\<exists>c c'. (g2 @ g3 @ post, c') \<in> set (ms A (g1 @ g2 @ g3 @ post) c))
           \<and> (\<exists>c c'. (g3 @ post, c') \<in> set (ms (LStar (NoneOf ''<'')) (g2 @ g3 @ post) c))
           \<and> (\<exists>c c'. (post, c') \<in> set (ms C (g3 @ post) c))"
    by (rule three_groups [OF assms [unfolded pat]]) (simp_all add: gc)
  then obtain pre g1 g2 g3 post where
    c0: "content = pre @ g1 @ g2 @ g3 @ post"
    and st: "m_start m = length pre" and en: "m_end m = length (pre @ g1 @ g2 @ g3)"
    and t1: "group content m 1 = Some g1" and t2: "group content m 2 = Some g2"
    and t3: "group content m 3 = Some g3" by blast
  let ?indent = \<open>if CHR 0x0A \<in> set g2 then ''\<newline>              '' else '' ''\<close>
  let ?ins = \<open>''<DarkModeToggle />'' @ ?indent\<close>
  let ?c = "(pre @ g1 @ g2) @ ?ins @ (g3 @ post)"
  have r: "std_apply3 content m = Inr (?c, True)"
    using c0 st en t1 t2 t3 by (simp add: std_apply3_def Let_def)
  have o: "occurrences toggle_tag ?ins = 1"
    by (simp add: toggle_tag_def)
  have c0': "content = (pre @ g1 @ g2) @ (g3 @ post)" using c0 by simp
  have "toggle_inserted std_pattern3 content ?c"
    by (rule toggle_insertedI [OF assms c0' _ o]) (use st en in simp_all)
  with r show ?thesis by blast
qed

lemma bell_inserts:
  assumes "re_search notification_pattern content = Some m"
  shows "toggle_inserted notification_pattern content (bell_insert content m)"
proof -
  from notification_parts [OF assms] obtain pre g1 x g3 post where
    c0: "content = pre @ g1 @ x @ g3 @ post"
    and st: "m_start m = length pre" and en: "m_end m = length (pre @ g1 @ x @ g3)"
    and t1: "group content m 1 = Some g1" and sp: "\<forall>c\<in>set g1. is_space c"
    and t3: "m_span m 3 = Some (length (pre @ g1 @ x), length (pre @ g1 @ x @ g3))" by blast
  from sp have nl: "CHR ''<'' \<notin> set g1" by (rule space_not_lt)
  let ?ins = \<open>''\<newline>'' @ g1 @ ''{/* Dark Mode Toggle */}\<newline>'' @ g1
              @ ''<DarkModeToggle />\<newline>'' @ g1\<close>
  let ?c = "(pre @ g1 @ x) @ ?ins @ (g3 @ post)"
  have r: "bell_insert content m = ?c"
    using c0 t1 t3 by (simp add: bell_insert_def Let_def)
  have o: "occurrences toggle_tag ?ins = 1"
    using nl by (simp add: toggle_tag_def occ_skip_lit occ_none_lit)
  have c0': "content = (pre @ g1 @ x) @ (g3 @ post)" using c0 by simp
  have "toggle_inserted notification_pattern content ?c"
    by (rule toggle_insertedI [OF assms c0' _ o]) (use st en in simp_all)
  with r show ?thesis by simp
qed

lemma container_inserts:
  assumes "re_search (container_pattern l) content = Some m"
  shows "\<exists>c'. container_insert content m = Inr c'
              \<and> toggle_inserted (container_pattern l) content c'"
proof -
  from container_parts [OF assms] obtain pre g1 g2 post where
    c0: "content = pre @ g1 @ g2 @ l @ post"
    and st: "m_start m = length pre" and en: "m_end m = length (pre @ g1 @ g2 @ l)"
    and t2: "group content m 2 = Some g2" and nl: "CHR ''<'' \<notin> set g2"
    and s2: "m_span m 2 = Some (length (pre @ g1), length (pre @ g1 @ g2))" by blast
  let ?indent = \<open>if strip g2 = [] then ''              '' else g2\<close>
  let ?ins = \<open>''\<newline>'' @ ?indent @ ''<DarkModeToggle />\<newline>'' @ ?indent\<close>
  let ?c = "(pre @ g1 @ g2) @ ?ins @ (l @ post)"
  have r: "container_insert content m = Inr ?c"
    using c0 t2 s2 by (simp add: container_insert_def Let_def)
  have ni: "CHR ''<'' \<notin> set ?indent" using nl by simp
  have o: "occurrences toggle_tag ?ins = 1"
    using ni by (simp add: toggle_tag_def occ_skip_lit occ_none_lit del: set_simps)
  have c0': "content = (pre @ g1 @ g2) @ (l @ post)" using c0 by simp
  have "toggle_inserted (container_pattern l) content ?c"
    by (rule toggle_insertedI [OF assms c0' _ o]) (use st en in simp_all)
  with r show ?thesis by blast
qed

text \<open>
  C7.  Where an anchor pattern matches (and, for \<open>add_dark_mode_toggle\<close>, the text does
  not hold the toggle yet), the function reports a change, and its result is the input
  with one text inserted at the match of the pattern it used; the inserted text holds the
  toggle exactly once, and the input is kept before and after it.
\<close>

theorem toggle_inserted_once:
  \<open>(re_search auth_pattern content \<noteq> None \<longrightarrow>
      (\<exists>c'. add_toggle_to_auth_page content = (c', True)
            \<and> toggle_inserted auth_pattern content c'))
   \<and> ((\<exists>pat \<in> set [std_pattern1, std_pattern2, std_pattern3, std_pattern4].
          re_search pat content \<noteq> None) \<longrightarrow>
      (\<exists>c' pat. pat \<in> set [std_pattern1, std_pattern2, std_pattern3, std_pattern4]
            \<and> add_toggle_to_standard_page content = Inr (c', True)
            \<and> toggle_inserted pat content c'))
   \<and> (\<not> contains ''<DarkModeToggle />'' content
        \<and> re_search notification_pattern content \<noteq> None \<longrightarrow>
      (\<exists>c'. add_dark_mode_toggle content file_path = Inr (c', True)
            \<and> toggle_inserted notification_pattern content c'))
   \<and> (\<not> contains ''<DarkModeToggle />'' content
        \<and> re_search notification_pattern content = None
        \<and> re_search logout_pattern content = Some m
        \<and> re_search (container_pattern (group0 content m)) content \<noteq> None \<longrightarrow>
      (\<exists>c'. add_dark_mode_toggle content file_path = Inr (c', True)
            \<and> toggle_inserted (container_pattern (group0 content m)) content c'))\<close>
proof (intro conjI impI)
  assume "re_search auth_pattern content \<noteq> None"
  then obtain m where "re_search auth_pattern content = Some m" by blast
  then show "\<exists>c'. add_toggle_to_auth_page content = (c', True)
            \<and> toggle_inserted auth_pattern content c'" by (rule auth_inserts)
next
  assume a: "\<exists>pat \<in> set [std_pattern1, std_pattern2, std_pattern3, std_pattern4].
          re_search pat content \<noteq> None"
  let ?P = "\<lambda>c' pat. pat \<in> set [std_pattern1, std_pattern2, std_pattern3, std_pattern4]
            \<and> add_toggle_to_standard_page content = Inr (c', True)
            \<and> toggle_inserted pat content c'"
  show "\<exists>c' pat. ?P c' pat"
  proof (cases "re_search std_pattern1 content")
    case (Some m)
    from std1_inserts [OF Some] obtain c' where
      "std_apply1 content m = Inr (c', True)" "toggle_inserted std_pattern1 content c'" by blast
    with Some have "?P c' std_pattern1" by (simp add: add_toggle_to_standard_page_def)
    then show ?thesis by blast
  next
    case n1: None
    show ?thesis
    proof (cases "re_search std_pattern2 content")
      case (Some m)
      from std2_inserts [OF Some] obtain c' where
        "std_apply2 content m = Inr (c', True)" "toggle_inserted std_pattern2 content c'" by blast
      with n1 Some have "?P c' std_pattern2" by (simp add: add_toggle_to_standard_page_def)
      then show ?thesis by blast
    next
      case n2: None
      show ?thesis
      proof (cases "re_search std_pattern3 content")
        case (Some m)
        from std3_inserts [OF Some] obtain c' where
          "std_apply3 content m = Inr (c', True)" "toggle_inserted std_pattern3 content c'"
          by blast
        with n1 n2 Some have "?P c' std_pattern3" by (simp add: add_toggle_to_standard_page_def)
        then show ?thesis by blast
      next
        case n3: None
        with a n1 n2 obtain m where Some: "re_search std_pattern4 content = Some m" by auto
        from std4_inserts [OF Some] obtain c' where
          "std_apply4 content m = Inr (c', True)" "toggle_inserted std_pattern4 content c'"
          by blast
        with n1 n2 n3 Some have "?P c' std_pattern4"
          by (simp add: add_toggle_to_standard_page_def)
        then show ?thesis by blast
      qed
    qed
  qed
next
  assume a: \<open>\<not> contains ''<DarkModeToggle />'' content
        \<and> re_search notification_pattern content \<noteq> None\<close>
  then obtain m where m: "re_search notification_pattern content = Some m" by blast
  from a m have "add_dark_mode_toggle content file_path = Inr (bell_insert content m, True)"
    by (simp add: add_dark_mode_toggle_def)
  with bell_inserts [OF m]
  show "\<exists>c'. add_dark_mode_toggle content file_path = Inr (c', True)
            \<and> toggle_inserted notification_pattern content c'" by blast
next
  assume a: \<open>\<not> contains ''<DarkModeToggle />'' content
        \<and> re_search notification_pattern content = None
        \<and> re_search logout_pattern content = Some m
        \<and> re_search (container_pattern (group0 content m)) content \<noteq> None\<close>
  then obtain cm where cm: "re_search (container_pattern (group0 content m)) content = Some cm"
    by blast
  from container_inserts [OF cm] obtain c' where
    c': "container_insert content cm = Inr c'"
    "toggle_inserted (container_pattern (group0 content m)) content c'" by blast
  from a cm c'(1) have "add_dark_mode_toggle content file_path = Inr (c', True)"
    by (simp add: add_dark_mode_toggle_def)
  with c'(2) show "\<exists>c'. add_dark_mode_toggle content file_path = Inr (c', True)
            \<and> toggle_inserted (container_pattern (group0 content m)) content c'" by blast
qed

theorem toggle_inserted_once_witness:
  \<open>toggle_inserted auth_pattern ''return (<div className="min-h-screen">x''
       (''return (<div className="min-h-screen">'' @ toggle_html @ ''x'')
   \<and> add_toggle_to_standard_page ''<div className="flex space-x-4"> <NotificationBell />''
       = Inr (''<div className="flex space-x-4"> <DarkModeToggle /> <NotificationBell />'', True)
   \<and> toggle_inserted notification_pattern ''<div> <NotificationBell />''
       (''<div> \<newline> {/* Dark Mode Toggle */}\<newline> <DarkModeToggle />\<newline> <NotificationBell />'')
   \<and> toggle_inserted (container_pattern ''<button onClick={handleLogout}'')
       ''<div className="flex">a<button onClick={handleLogout}>''
       ''<div className="flex">a\<newline>a<DarkModeToggle />\<newline>a<button onClick={handleLogout}>''\<close>
proof -
  let ?c1 = \<open>''return (<div className="min-h-screen">x''\<close>
  let ?c2 = \<open>''<div className="flex space-x-4"> <NotificationBell />''\<close>
  let ?c3 = \<open>''<div> <NotificationBell />''\<close>
  let ?c4 = \<open>''<div className="flex">a<button onClick={handleLogout}>''\<close>
  have h1: "re_search auth_pattern ?c1 \<noteq> None" by code_simp
  have e1: \<open>add_toggle_to_auth_page ?c1 =
      (''return (<div className="min-h-screen">'' @ toggle_html @ ''x'', True)\<close> by code_simp
  have h2: "\<exists>pat \<in> set [std_pattern1, std_pattern2, std_pattern3, std_pattern4].
          re_search pat ?c2 \<noteq> None"
  proof -
    have "re_search std_pattern2 ?c2 \<noteq> None" by code_simp
    then show ?thesis by simp
  qed
  have e2: \<open>add_toggle_to_standard_page ?c2 =
      Inr (''<div className="flex space-x-4"> <DarkModeToggle /> <NotificationBell />'', True)\<close>
    by code_simp
  have h3: \<open>\<not> contains ''<DarkModeToggle />'' ?c3 \<and> re_search notification_pattern ?c3 \<noteq> None\<close>
    by code_simp
  have e3: \<open>add_dark_mode_toggle ?c3 ''p'' =
      Inr (''<div> \<newline> {/* Dark Mode Toggle */}\<newline> <DarkModeToggle />\<newline> <NotificationBell />'', True)\<close>
    by code_simp
  have h4: \<open>\<not> contains ''<DarkModeToggle />'' ?c4 \<and> re_search notification_pattern ?c4 = None\<close>
    by code_simp
  have l4: "re_search logout_pattern ?c4 \<noteq> None" by code_simp
  then obtain m where m: "re_search logout_pattern ?c4 = Some m" by blast
  have "case re_search logout_pattern ?c4 of None \<Rightarrow> False
        | Some m \<Rightarrow> re_search (container_pattern (group0 ?c4 m)) ?c4 \<noteq> None" by code_simp
  with m have k4: "re_search (container_pattern (group0 ?c4 m)) ?c4 \<noteq> None" by simp
  have e4: \<open>add_dark_mode_toggle ?c4 ''p'' =
      Inr (''<div className="flex">a\<newline>a<DarkModeToggle />\<newline>a<button onClick={handleLogout}>'',
              True)\<close> by code_simp
  note t1 = toggle_inserted_once [of ?c1 \<open>''p''\<close> m]
  note t2 = toggle_inserted_once [of ?c2 \<open>''p''\<close> m]
  note t3 = toggle_inserted_once [of ?c3 \<open>''p''\<close> m]
  note t4 = toggle_inserted_once [of ?c4 \<open>''p''\<close> m]
  from t1 h1 e1 have 1: \<open>toggle_inserted auth_pattern ?c1
       (''return (<div className="min-h-screen">'' @ toggle_html @ ''x'')\<close> by auto
  from t2 h2 obtain c' pat where "add_toggle_to_standard_page ?c2 = Inr (c', True)" by blast
  from t3 h3 e3 have 3: \<open>toggle_inserted notification_pattern ?c3
       (''<div> \<newline> {/* Dark Mode Toggle */}\<newline> <DarkModeToggle />\<newline> <NotificationBell />'')\<close>
    by auto
  have \<open>map_option (group0 ?c4) (re_search logout_pattern ?c4)
          = Some ''<button onClick={handleLogout}''\<close> by code_simp
  with m have g: \<open>group0 ?c4 m = ''<button onClick={handleLogout}''\<close> by simp
  from t4 h4 m k4 e4 have \<open>toggle_inserted (container_pattern (group0 ?c4 m)) ?c4
       ''<div className="flex">a\<newline>a<DarkModeToggle />\<newline>a<button onClick={handleLogout}>''\<close>
    by auto
  with g have 4: \<open>toggle_inserted (container_pattern ''<button onClick={handleLogout}'') ?c4
       ''<div className="flex">a\<newline>a<DarkModeToggle />\<newline>a<button onClick={handleLogout}>''\<close>
    by simp
  from 1 e2 3 4 show ?thesis by blast
qed

section \<open>The class step\<close>

text \<open>Where a pattern matches nowhere, \<open>re.sub\<close> returns the text as it is.\<close>

lemma sub_walk_no_match:
  "(\<forall>t. suffix t s \<longrightarrow> ms r t Map.empty = []) \<Longrightarrow> sub_walk r repl 0 s = s"
proof (induction s)
  case Nil
  then show ?case by simp
next
  case (Cons x xs)
  from Cons.prems have "ms r (x # xs) Map.empty = []" by simp
  moreover from Cons.prems have "\<forall>t. suffix t xs \<longrightarrow> ms r t Map.empty = []"
    by (simp add: suffix_Cons)
  ultimately show ?case using Cons.IH by simp
qed

lemma re_sub_no_match: "re_search r content = None \<Longrightarrow> re_sub r repl content = content"
  by (simp add: re_sub_def re_search_None_iff search_None_iff sub_walk_no_match)

text \<open>
  The guard of the design: a text in which no pattern of the table matches, every base
  class being followed by \<open>dark:\<close>, is returned as it is.
\<close>

lemma classes_loop_stable:
  "\<forall>(pattern, replacement) \<in> set maps. re_search pattern content = None \<Longrightarrow>
     classes_loop maps content modified = (content, modified)"
  by (induction maps) (auto simp: re_sub_no_match)

lemma add_dark_mode_classes_stable:
  "\<forall>(pattern, replacement) \<in> set CLASS_MAPPINGS. re_search pattern content = None \<Longrightarrow>
     add_dark_mode_classes content = (content, False)"
  by (simp add: add_dark_mode_classes_def classes_loop_stable)

text \<open>The class step only puts text in: the input is a subsequence of the output.\<close>

lemma ms_class_pattern:
  "(e, c) \<in> set (ms (Seq (Lit b) not_dark) s c0) \<Longrightarrow> s = b @ e"
  by (auto simp: not_dark_def lit_match_iff lit_match_iff2 split: option.splits list.splits)

lemma sub_walk_subseq:
  "subseq (drop k s) (sub_walk (Seq (Lit b) not_dark) (b @ d) k s)"
proof (induction s arbitrary: k)
  case Nil
  then show ?case by simp
next
  case (Cons x xs)
  let ?r = "Seq (Lit b) not_dark"
  show ?case
  proof (cases "0 < k")
    case True
    then have "drop k (x # xs) = drop (k - 1) xs" by (cases k) simp_all
    with True Cons.IH [of "k - 1"] show ?thesis by simp
  next
    case False
    then have k: "k = 0" by simp
    show ?thesis
    proof (cases "ms ?r (x # xs) Map.empty")
      case Nil
      with k Cons.IH [of 0] show ?thesis by (simp del: ms.simps)
    next
      case (Cons p ps)
      obtain e c where p: "p = (e, c)" by (cases p)
      with Cons have "(e, c) \<in> set (ms ?r (x # xs) Map.empty)" by simp
      from ms_class_pattern [OF this] have be: "x # xs = b @ e" .
      show ?thesis
      proof (cases "length e \<le> length xs")
        case True
        from be have "length xs - length e = length b - 1"
          by (metis add_diff_cancel_right' diff_Suc_1 length_Cons length_append diff_right_commute)
        moreover from be True have "b \<noteq> []" by auto
        ultimately have "drop (length xs - length e) xs = e" using be
          by (cases b) auto
        with Cons.IH [of "length xs - length e"]
        have "subseq e (sub_walk ?r (b @ d) (length xs - length e) xs)" by simp
        moreover have "subseq b (b @ d)" by (rule prefix_imp_subseq) simp
        ultimately have "subseq (b @ e) ((b @ d) @ sub_walk ?r (b @ d) (length xs - length e) xs)"
          by (intro list_emb_append_mono)
        then have "subseq (x # xs) ((b @ d) @ sub_walk ?r (b @ d) (length xs - length e) xs)"
          unfolding be .
        moreover have "sub_walk ?r (b @ d) 0 (x # xs)
            = (b @ d) @ sub_walk ?r (b @ d) (length xs - length e) xs"
          using Cons p True by (simp del: ms.simps)
        ultimately show ?thesis using k by (simp del: ms.simps sub_walk.simps)
      next
        case False
        from Cons.IH [of 0] have "subseq (x # xs) (x # sub_walk ?r (b @ d) 0 xs)" by simp
        then have "subseq (x # xs) ((b @ d) @ x # sub_walk ?r (b @ d) 0 xs)"
          by (rule list_emb_append2)
        moreover have "sub_walk ?r (b @ d) 0 (x # xs)
            = (b @ d) @ x # sub_walk ?r (b @ d) 0 xs"
          using Cons p False by (simp del: ms.simps)
        ultimately show ?thesis using k by (simp del: ms.simps sub_walk.simps)
      qed
    qed
  qed
qed

lemma classes_loop_subseq:
  "\<forall>(pattern, replacement) \<in> set maps.
      \<exists>b d. pattern = Seq (Lit b) not_dark \<and> replacement = b @ d \<Longrightarrow>
   subseq content (fst (classes_loop maps content modified))"
proof (induction maps arbitrary: content modified)
  case Nil
  then show ?case by simp
next
  case (Cons pr maps)
  obtain pattern replacement where pr: "pr = (pattern, replacement)" by (cases pr)
  with Cons.prems obtain b d where
    bd: "pattern = Seq (Lit b) not_dark" "replacement = b @ d" by auto
  from Cons.prems have rest: "\<forall>(pattern, replacement) \<in> set maps.
      \<exists>b d. pattern = Seq (Lit b) not_dark \<and> replacement = b @ d" by simp
  have 1: "subseq content (re_sub pattern replacement content)"
    using sub_walk_subseq [of 0 content b d] bd by (simp add: re_sub_def)
  have 2: "subseq (re_sub pattern replacement content)
             (fst (classes_loop maps (re_sub pattern replacement content) True))"
    using Cons.IH [OF rest] .
  have 3: "subseq content (fst (classes_loop maps content modified))"
    using Cons.IH [OF rest] .
  from 1 2 have "subseq content (fst (classes_loop maps (re_sub pattern replacement content) True))"
    by (rule subseq_order.trans)
  with 3 pr show ?case by (simp add: Let_def)
qed

lemma class_mappings_shape:
  "\<forall>(pattern, replacement) \<in> set CLASS_MAPPINGS.
      \<exists>b d. pattern = Seq (Lit b) not_dark \<and> replacement = b @ d"
proof -
  have e: "\<exists>b' d'. Seq (Lit b) not_dark = Seq (Lit b') not_dark \<and> b @ d = b' @ d'" for b d
    by blast
  show ?thesis
    unfolding CLASS_MAPPINGS_def
    using e [of \<open>''bg-gray-50''\<close> \<open>'' dark:bg-gray-900''\<close>]
      e [of \<open>''bg-gray-100''\<close> \<open>'' dark:bg-gray-900''\<close>]
      e [of \<open>''bg-white''\<close> \<open>'' dark:bg-gray-800''\<close>]
      e [of \<open>''text-gray-600''\<close> \<open>'' dark:text-gray-300''\<close>]
      e [of \<open>''text-gray-700''\<close> \<open>'' dark:text-gray-200''\<close>]
      e [of \<open>''text-gray-800''\<close> \<open>'' dark:text-gray-100''\<close>]
      e [of \<open>''text-gray-900''\<close> \<open>'' dark:text-white''\<close>]
      e [of \<open>''text-green-800''\<close> \<open>'' dark:text-green-400''\<close>]
      e [of \<open>''text-blue-600''\<close> \<open>'' dark:text-blue-400''\<close>]
      e [of \<open>''text-indigo-600''\<close> \<open>'' dark:text-indigo-400''\<close>]
    by simp
qed

lemma add_dark_mode_classes_subseq: "subseq content (fst (add_dark_mode_classes content))"
  unfolding add_dark_mode_classes_def
  by (rule classes_loop_subseq [OF class_mappings_shape])

text \<open>
  C2.  The class step should append a dark variant to a bare base class only, once, and
  change nothing else.  The patterns have no word boundary, though the comment in
  \<open>add_dark_mode_classes\<close> says so: the class \<open>bg-gray-500\<close>, which is not in the table,
  is cut in two, and on the second text a second run appends once more.
\<close>

theorem classes_without_word_boundary:
  \<open>add_dark_mode_classes ''<div className="bg-gray-500">''
     = (''<div className="bg-gray-50 dark:bg-gray-9000">'', True)
   \<and> add_dark_mode_classes ''text-gray-900xt-gray-600''
     = (''text-gray-900 dark:text-whitext-gray-600'', True)
   \<and> add_dark_mode_classes ''text-gray-900 dark:text-whitext-gray-600''
     = (''text-gray-900 dark:text-whitext-gray-600 dark:text-gray-300'', True)\<close>
  by code_simp

end
